theory Spec2Isabelle
  imports Main "HOL-Library.Word"
begin

unbundle bit_operations_syntax

section \<open>The command writer of the RSP command queue (include/rspq.h)\<close>

text \<open>
  The header \<^verbatim>\<open>include/rspq.h\<close> implements the producer side of the queue as
  macros over three external names: the write cursor \<^verbatim>\<open>rspq_cur_pointer\<close>, the
  sentinel \<^verbatim>\<open>rspq_cur_sentinel\<close> (both \<^verbatim>\<open>volatile uint32_t *\<close>) and the
  function \<^verbatim>\<open>rspq_next_buffer\<close>.  Pointers are modelled as word indices into
  RDRAM (C pointer arithmetic on \<^verbatim>\<open>uint32_t *\<close> counts 32-bit words), the
  memory as a function from word index to 32-bit word.  The body of
  \<^verbatim>\<open>rspq_next_buffer\<close> is not part of the header; the macros take it as the
  parameter \<open>nb\<close>.
\<close>

type_synonym u32 = "32 word"

definition RSPQ_MAX_COMMAND_SIZE :: nat where
  "RSPQ_MAX_COMMAND_SIZE = 16"

record rspq_state =
  rdram :: "nat \<Rightarrow> u32"
  rspq_cur_pointer :: nat
  rspq_cur_sentinel :: nat

text \<open>
  A macro body is a straight-line sequence of statements over the global state and
  the local \<^verbatim>\<open>ptr\<close> declared by the prolog.  Every access goes through a
  \<^verbatim>\<open>volatile\<close> pointer, so the stores happen in program order; the model keeps
  the body as the list of its statements, each a function on the pair
  (\<^verbatim>\<open>ptr\<close>, state).
\<close>

type_synonym 'a wstate = "nat \<times> 'a rspq_state_scheme"

definition run_stmts :: "('s \<Rightarrow> 's) list \<Rightarrow> 's \<Rightarrow> 's" where
  "run_stmts stmts x = fold (\<lambda>f y. f y) stmts x"

text \<open>\<^verbatim>\<open>volatile uint32_t *ptr = rspq_cur_pointer+1;\<close>\<close>

definition rspq_write_prolog :: "'a rspq_state_scheme \<Rightarrow> 'a wstate" where
  "rspq_write_prolog s = (rspq_cur_pointer s + 1, s)"

text \<open>\<^verbatim>\<open>*ptr++ = (arg);\<close>\<close>

definition rspq_write_arg :: "u32 \<Rightarrow> 'a wstate \<Rightarrow> 'a wstate" where
  "rspq_write_arg arg = (\<lambda>(ptr, s). (ptr + 1, s\<lparr>rdram := (rdram s)(ptr := arg)\<rparr>))"

text \<open>\<^verbatim>\<open>rspq_cur_pointer[0] = w;\<close>\<close>

definition rspq_store_first :: "u32 \<Rightarrow> 'a wstate \<Rightarrow> 'a wstate" where
  "rspq_store_first w = (\<lambda>(ptr, s). (ptr, s\<lparr>rdram := (rdram s)(rspq_cur_pointer s := w)\<rparr>))"

text \<open>\<^verbatim>\<open>rspq_cur_pointer += k;\<close>\<close>

definition rspq_advance :: "nat \<Rightarrow> 'a wstate \<Rightarrow> 'a wstate" where
  "rspq_advance k = (\<lambda>(ptr, s). (ptr, s\<lparr>rspq_cur_pointer := rspq_cur_pointer s + k\<rparr>))"

text \<open>\<^verbatim>\<open>if (rspq_cur_pointer > rspq_cur_sentinel) rspq_next_buffer();\<close>\<close>

definition rspq_write_epilog ::
  "('a rspq_state_scheme \<Rightarrow> 'a rspq_state_scheme) \<Rightarrow> 'a rspq_state_scheme \<Rightarrow> 'a rspq_state_scheme" where
  "rspq_write_epilog nb s = (if rspq_cur_pointer s > rspq_cur_sentinel s then nb s else s)"

text \<open>
  The statements of \<^verbatim>\<open>_rspq_write0(cmd_id)\<close> between prolog and epilog:
  \<^verbatim>\<open>rspq_cur_pointer[0] = (cmd_id)<<24; rspq_cur_pointer += 1;\<close>
\<close>

definition rspq_write0_body :: "u32 \<Rightarrow> ('a wstate \<Rightarrow> 'a wstate) list" where
  "rspq_write0_body cmd_id = [rspq_store_first (push_bit 24 cmd_id), rspq_advance 1]"

text \<open>
  The statements of \<^verbatim>\<open>_rspq_write1(cmd_id, arg0, ...)\<close> between prolog and epilog:
  one \<^verbatim>\<open>_rspq_write_arg\<close> per variadic argument after \<^verbatim>\<open>arg0\<close>, then
  \<^verbatim>\<open>rspq_cur_pointer[0] = ((cmd_id)<<24) | (arg0);\<close> and
  \<^verbatim>\<open>rspq_cur_pointer += 1 + __COUNT_VARARGS(__VA_ARGS__);\<close>
\<close>

definition rspq_write1_body :: "u32 \<Rightarrow> u32 \<Rightarrow> u32 list \<Rightarrow> ('a wstate \<Rightarrow> 'a wstate) list" where
  "rspq_write1_body cmd_id arg0 rest =
     map rspq_write_arg rest @
     [rspq_store_first (push_bit 24 cmd_id OR arg0), rspq_advance (1 + length rest)]"

text \<open>The state when the statements before the epilog have run.\<close>

definition rspq_write0_stored :: "u32 \<Rightarrow> 'a rspq_state_scheme \<Rightarrow> 'a rspq_state_scheme" where
  "rspq_write0_stored cmd_id s = snd (run_stmts (rspq_write0_body cmd_id) (rspq_write_prolog s))"

definition rspq_write1_stored ::
  "u32 \<Rightarrow> u32 \<Rightarrow> u32 list \<Rightarrow> 'a rspq_state_scheme \<Rightarrow> 'a rspq_state_scheme" where
  "rspq_write1_stored cmd_id arg0 rest s =
     snd (run_stmts (rspq_write1_body cmd_id arg0 rest) (rspq_write_prolog s))"

definition rspq_write0 ::
  "('a rspq_state_scheme \<Rightarrow> 'a rspq_state_scheme) \<Rightarrow> u32 \<Rightarrow>
   'a rspq_state_scheme \<Rightarrow> 'a rspq_state_scheme" where
  "rspq_write0 nb cmd_id s = rspq_write_epilog nb (rspq_write0_stored cmd_id s)"

definition rspq_write1 ::
  "('a rspq_state_scheme \<Rightarrow> 'a rspq_state_scheme) \<Rightarrow> u32 \<Rightarrow> u32 \<Rightarrow> u32 list \<Rightarrow>
   'a rspq_state_scheme \<Rightarrow> 'a rspq_state_scheme" where
  "rspq_write1 nb cmd_id arg0 rest s = rspq_write_epilog nb (rspq_write1_stored cmd_id arg0 rest s)"

text \<open>
  \<^verbatim>\<open>rspq_write(cmd_id, ...)\<close> selects \<^verbatim>\<open>_rspq_write0\<close> or \<^verbatim>\<open>_rspq_write1\<close>
  by \<^verbatim>\<open>__HAS_VARARGS\<close>.  The arguments after \<^verbatim>\<open>cmd_id\<close> are the list
  \<open>args\<close>.  (The counting macros are written out for at most 31 arguments.)
\<close>

definition rspq_write ::
  "('a rspq_state_scheme \<Rightarrow> 'a rspq_state_scheme) \<Rightarrow> u32 \<Rightarrow> u32 list \<Rightarrow>
   'a rspq_state_scheme \<Rightarrow> 'a rspq_state_scheme" where
  "rspq_write nb cmd_id args s =
     (case args of [] \<Rightarrow> rspq_write0 nb cmd_id s
      | arg0 # rest \<Rightarrow> rspq_write1 nb cmd_id arg0 rest s)"

definition rspq_write_stored :: "u32 \<Rightarrow> u32 list \<Rightarrow> 'a rspq_state_scheme \<Rightarrow> 'a rspq_state_scheme" where
  "rspq_write_stored cmd_id args s =
     (case args of [] \<Rightarrow> rspq_write0_stored cmd_id s
      | arg0 # rest \<Rightarrow> rspq_write1_stored cmd_id arg0 rest s)"

text \<open>
  The words of a command as the interface describes them: the command id in the most
  significant byte of the first word, together with the first argument, then the
  remaining arguments.
\<close>

definition rspq_cmd_words :: "u32 \<Rightarrow> u32 list \<Rightarrow> u32 list" where
  "rspq_cmd_words cmd_id args =
     (case args of [] \<Rightarrow> [push_bit 24 cmd_id]
      | arg0 # rest \<Rightarrow> (push_bit 24 cmd_id OR arg0) # rest)"

text \<open>A sequence of \<^verbatim>\<open>rspq_write\<close> invocations, each given by its command id and arguments.\<close>

definition rspq_write_all ::
  "('a rspq_state_scheme \<Rightarrow> 'a rspq_state_scheme) \<Rightarrow> (u32 \<times> u32 list) list \<Rightarrow>
   'a rspq_state_scheme \<Rightarrow> 'a rspq_state_scheme" where
  "rspq_write_all nb cmds s = fold (\<lambda>c. rspq_write nb (fst c) (snd c)) cmds s"

definition rspq_words_of :: "(u32 \<times> u32 list) list \<Rightarrow> u32 list" where
  "rspq_words_of cmds = concat (map (\<lambda>c. rspq_cmd_words (fst c) (snd c)) cmds)"


section \<open>The parts of the engine that the header only declares\<close>

text \<open>
  \<^verbatim>\<open>include/rspq.h\<close> declares \<^verbatim>\<open>rspq_next_buffer\<close>, \<^verbatim>\<open>rspq_flush\<close>,
  \<^verbatim>\<open>rspq_block_begin\<close>, \<^verbatim>\<open>rspq_block_end\<close>, \<^verbatim>\<open>rspq_syncpoint\<close>,
  \<^verbatim>\<open>rspq_check_syncpoint\<close>, \<^verbatim>\<open>rspq_wait_syncpoint\<close>, \<^verbatim>\<open>rspq_highpri_begin\<close>
  and \<^verbatim>\<open>rspq_highpri_end\<close>; their bodies are in none of the source files, and
  neither is the consumer, the microcode of the coprocessor.  The definitions of this section follow the
  specification (sections 3 to 5) instead, and say so.
\<close>

text \<open>
  Modelled from the spec: the one failure of the engine, a caller contract violation
  (section 7: "fatal at the point of detection").  The assertion that reports it is
  in the missing bodies.
\<close>

datatype rspq_error = Contract_Violation

text \<open>
  Modelled from the spec: a block's private buffer (section 3, "Block"; section 4.3,
  "the block's private buffer").  The spec bounds neither the number of commands of a
  block nor the size of its buffer, so the buffer is a sequence of chunks of memory,
  in the order in which they were taken into use, each given by its first word and
  its size in words.  The declaration \<^verbatim>\<open>struct rspq_block_s\<close> is missing.
\<close>

record rspq_block =
  block_chunks :: "(nat \<times> nat) list"

text \<open>
  Modelled from the spec: the engine context beyond the cursor and the sentinel
  (section 9: "write pointer, sentinel, active buffer" in one context value).  The
  two regions of the double-buffered ring buffer (section 3) by their first words,
  the capacity of a region in words, the index of the active region, the block being
  recorded if any (section 4.4) with the cursor and sentinel of the live queue kept
  aside meanwhile, whether a high-priority segment is open (section 4.6), and whether
  the consumer has gone idle (section 4.1, \<open>flush\<close>).
\<close>

record rspq_ctx = rspq_state +
  rspq_buffers :: "nat \<times> nat"
  rspq_buf_size :: nat
  rspq_buf_idx :: nat
  rspq_block :: "rspq_block option"
  rspq_saved :: "nat \<times> nat"
  rspq_highpri_open :: bool
  rspq_consumer_idle :: bool

text \<open>
  Modelled from the spec: the first word of region \<open>i\<close> of the ring buffer (section
  3, "two regions are used"); the declaration of the context is missing.
\<close>

definition rspq_buffer :: "rspq_ctx \<Rightarrow> nat \<Rightarrow> nat" where
  "rspq_buffer s i = (if i = 0 then fst (rspq_buffers s) else snd (rspq_buffers s))"

text \<open>
  Modelled from the spec: the body of \<^verbatim>\<open>rspq_next_buffer\<close>, missing from the
  sources.  Section 4.1: when the remaining space in the active buffer is
  insufficient, the writer "switches to the alternate buffer and arranges for the
  consumer to be redirected there once it finishes the current buffer (a jump control
  command is appended)"; a write reserves "room for up to the maximum command size",
  which places the new sentinel that many words before the end of the region.  The
  encoding of the jump command is not specified; it is the parameter \<open>jump\<close>, from
  the target address to the command word.  The spec describes the switch for the
  live ring buffer only.
\<close>

definition rspq_next_buffer :: "(nat \<Rightarrow> u32) \<Rightarrow> rspq_ctx \<Rightarrow> rspq_ctx" where
  "rspq_next_buffer jump s =
     (let idx = 1 - rspq_buf_idx s; new = rspq_buffer s idx in
      s\<lparr>rdram := (rdram s)(rspq_cur_pointer s := jump new),
        rspq_cur_pointer := new,
        rspq_cur_sentinel := new + rspq_buf_size s - RSPQ_MAX_COMMAND_SIZE,
        rspq_buf_idx := idx\<rparr>)"

text \<open>
  Modelled from the spec: the body of \<^verbatim>\<open>rspq_flush\<close>, missing from the sources.
  Section 4.1: \<open>flush\<close> "ensures the consumer is not left idle below the most
  recently published cursor position", with the side effect that it "may wake the
  consumer if it had gone idle"; section 4.3: while a block is being recorded it
  "becomes a no-op".
\<close>

definition rspq_flush :: "rspq_ctx \<Rightarrow> rspq_ctx" where
  "rspq_flush s = (if rspq_block s \<noteq> None then s else s\<lparr>rspq_consumer_idle := False\<rparr>)"

text \<open>
  Modelled from the spec: the words of a chunk of memory, the words of a block's
  private buffer, and the words of the two regions of the live ring buffer (section
  3); the declarations of the block and of the context are missing.
\<close>

definition rspq_in_chunk :: "nat \<times> nat \<Rightarrow> nat \<Rightarrow> bool" where
  "rspq_in_chunk c a = (fst c \<le> a \<and> a < fst c + snd c)"

definition rspq_in_block :: "rspq_block \<Rightarrow> nat \<Rightarrow> bool" where
  "rspq_in_block b a = list_ex (\<lambda>c. rspq_in_chunk c a) (block_chunks b)"

definition rspq_in_live :: "rspq_ctx \<Rightarrow> nat \<Rightarrow> bool" where
  "rspq_in_live s a =
     (rspq_in_chunk (fst (rspq_buffers s), rspq_buf_size s) a
      \<or> rspq_in_chunk (snd (rspq_buffers s), rspq_buf_size s) a)"

text \<open>
  Modelled from the spec: what makes a chunk of memory fit for a private buffer
  (section 4.3, "the block's private buffer instead of the live ring buffer").  It
  shares no word with the two regions of the live ring buffer, and it has room for a
  command of the maximum size and for the jump that continues the buffer.  The
  engine's allocation of the chunks is missing from the sources; the definitions
  below take it as the parameter \<open>alloc\<close>, from the state of the engine to the next
  chunk.
\<close>

definition rspq_chunk_fresh :: "rspq_ctx \<Rightarrow> nat \<times> nat \<Rightarrow> bool" where
  "rspq_chunk_fresh s c =
     (RSPQ_MAX_COMMAND_SIZE + 1 \<le> snd c
      \<and> (fst c + snd c \<le> fst (rspq_buffers s) \<or> fst (rspq_buffers s) + rspq_buf_size s \<le> fst c)
      \<and> (fst c + snd c \<le> snd (rspq_buffers s) \<or> snd (rspq_buffers s) + rspq_buf_size s \<le> fst c))"

text \<open>
  Modelled from the spec: the body of \<^verbatim>\<open>rspq_block_begin\<close>, missing from the
  sources.  Section 4.4: idle, then \<open>block_begin\<close>, then recording; beginning a block
  while one is being recorded is a contract violation, and so is (section 4.6)
  beginning one while a high-priority segment is open.  Section 4.3: while recording,
  "all writes are redirected into the block's private buffer instead of the live ring
  buffer": the cursor is pointed at the first chunk of the private buffer, with the
  sentinel a maximum command size and the word of a jump before its end, and the
  cursor and sentinel of the live queue are kept aside.
\<close>

definition rspq_block_begin :: "(rspq_ctx \<Rightarrow> nat \<times> nat) \<Rightarrow> rspq_ctx \<Rightarrow> rspq_error + rspq_ctx" where
  "rspq_block_begin alloc s =
     (if rspq_block s \<noteq> None \<or> rspq_highpri_open s then Inl Contract_Violation
      else let c = alloc s in
           Inr (s\<lparr>rspq_block := Some \<lparr>block_chunks = [c]\<rparr>,
                  rspq_saved := (rspq_cur_pointer s, rspq_cur_sentinel s),
                  rspq_cur_pointer := fst c,
                  rspq_cur_sentinel := fst c + snd c - (RSPQ_MAX_COMMAND_SIZE + 1)\<rparr>))"

text \<open>
  Modelled from the spec: what the call of \<^verbatim>\<open>rspq_next_buffer\<close> in the epilog of
  a write does in either state of the recorder.  With no block being recorded it is
  the switch of the live ring buffer (section 4.1), \<open>rspq_next_buffer\<close> above.  While
  a block is being recorded "all writes are redirected into the block's private
  buffer" (section 4.3), whatever their number: the private buffer is continued in a
  further chunk, the consumer being redirected there by a jump command as it is
  between the regions of the ring buffer (section 5: "buffer-switch/jump commands are
  used ... to hand off control"), and the live ring buffer is not switched.
\<close>

definition rspq_next_buffer_block ::
  "(nat \<Rightarrow> u32) \<Rightarrow> (rspq_ctx \<Rightarrow> nat \<times> nat) \<Rightarrow> rspq_ctx \<Rightarrow> rspq_ctx" where
  "rspq_next_buffer_block jump alloc s =
     (case rspq_block s of
        None \<Rightarrow> rspq_next_buffer jump s
      | Some b \<Rightarrow>
          let c = alloc s in
          s\<lparr>rdram := (rdram s)(rspq_cur_pointer s := jump (fst c)),
            rspq_cur_pointer := fst c,
            rspq_cur_sentinel := fst c + snd c - (RSPQ_MAX_COMMAND_SIZE + 1),
            rspq_block := Some (b\<lparr>block_chunks := block_chunks b @ [c]\<rparr>)\<rparr>)"

text \<open>
  Modelled from the spec: the body of \<^verbatim>\<open>rspq_block_end\<close>, missing from the
  sources.  Section 4.4: recording, then \<open>block_end\<close>, then idle, "returns a block
  handle"; the writes go to the live queue again, from the cursor kept aside.
\<close>

definition rspq_block_end :: "rspq_ctx \<Rightarrow> rspq_error + (rspq_block \<times> rspq_ctx)" where
  "rspq_block_end s =
     (case rspq_block s of
        None \<Rightarrow> Inl Contract_Violation
      | Some b \<Rightarrow> Inr (b, s\<lparr>rspq_block := None,
                            rspq_cur_pointer := fst (rspq_saved s),
                            rspq_cur_sentinel := snd (rspq_saved s)\<rparr>))"

text \<open>
  Modelled from the spec: the calls a producer makes while it records a block, a
  write of a command or a flush (section 4.3), and their effect in sequence.  The
  write is the macro of the header, its call of \<^verbatim>\<open>rspq_next_buffer\<close> being the
  function above.
\<close>

datatype rspq_call = Call_write u32 "u32 list" | Call_flush

fun rspq_run_call ::
  "(nat \<Rightarrow> u32) \<Rightarrow> (rspq_ctx \<Rightarrow> nat \<times> nat) \<Rightarrow> rspq_call \<Rightarrow> rspq_ctx \<Rightarrow> rspq_ctx" where
  "rspq_run_call jump alloc (Call_write cmd_id args) s =
     rspq_write (rspq_next_buffer_block jump alloc) cmd_id args s"
| "rspq_run_call jump alloc Call_flush s = rspq_flush s"

definition rspq_run_calls ::
  "(nat \<Rightarrow> u32) \<Rightarrow> (rspq_ctx \<Rightarrow> nat \<times> nat) \<Rightarrow> rspq_call list \<Rightarrow> rspq_ctx \<Rightarrow> rspq_ctx" where
  "rspq_run_calls jump alloc cs s = fold (rspq_run_call jump alloc) cs s"

text \<open>
  The header fixes the type of a syncpoint handle, \<^verbatim>\<open>typedef int rspq_syncpoint_t\<close>:
  a 32-bit two's complement integer, here a 32-bit word read with \<open>sint\<close>.
\<close>

type_synonym rspq_syncpoint_t = "32 word"

text \<open>
  Modelled from the spec: the state of the syncpoint manager (section 4.5), whose
  functions the header only declares.  The state is the counter handed out last,
  "the consumer's last-acknowledged counter", and the marker commands that are in the
  stream and not yet executed, oldest first.  The counter starts at 0, so that the
  first handle is 1 (section 3: "0 is not a valid handle").  Creating a syncpoint
  while a block is recorded is a contract violation (section 4.4) and is outside this
  model.
\<close>

record rspq_sync =
  sync_counter :: rspq_syncpoint_t
  sync_acked :: rspq_syncpoint_t
  sync_markers :: "rspq_syncpoint_t list"

text \<open>
  Modelled from the spec: the state of the syncpoint manager after \<open>init\<close>, which is
  missing from the sources: no syncpoint created, none acknowledged.
\<close>

definition rspq_sync_init :: rspq_sync where
  "rspq_sync_init = \<lparr>sync_counter = 0, sync_acked = 0, sync_markers = []\<rparr>"

text \<open>
  Modelled from the spec: \<open>create\<close> "appends a lightweight marker command carrying a
  freshly allocated counter value and returns that value as the syncpoint handle
  (values increase monotonically, with defined wraparound behavior at the counter's
  maximum)".  The increment is that of the 32-bit counter and wraps around.
\<close>

definition rspq_syncpoint :: "rspq_sync \<Rightarrow> rspq_syncpoint_t \<times> rspq_sync" where
  "rspq_syncpoint s =
     (let h = sync_counter s + 1
      in (h, s\<lparr>sync_counter := h, sync_markers := sync_markers s @ [h]\<rparr>))"

text \<open>
  Modelled from the spec: the consumer executing the next marker command of the
  stream; the last-acknowledged counter is "updated by the marker command's side
  effect when the consumer executes it".  With no marker in the stream nothing
  happens.
\<close>

definition rspq_consumer_marker :: "rspq_sync \<Rightarrow> rspq_sync" where
  "rspq_consumer_marker s =
     (case sync_markers s of
        [] \<Rightarrow> s
      | h # ms \<Rightarrow> s\<lparr>sync_acked := h, sync_markers := ms\<rparr>)"

text \<open>
  Modelled from the spec: \<open>check\<close> "performs an O(1), non-blocking comparison of the
  handle against the consumer's last-acknowledged counter"; the comparison is the one
  the spec names as wraparound-safe, "signed difference arithmetic".
\<close>

definition rspq_check_syncpoint :: "rspq_syncpoint_t \<Rightarrow> rspq_sync \<Rightarrow> bool" where
  "rspq_check_syncpoint h s = (0 \<le> sint (sync_acked s - h))"

text \<open>
  Modelled from the spec: \<open>wait\<close> "blocks the calling thread, re-checking on each
  wake signal from the consumer, until check is true; if already true, it returns
  immediately without blocking".  A wake signal is the consumer having executed its
  next marker.  The function returns the state it ends in and the number of wake
  signals it blocked for, counted from \<open>n\<close>; it need not return (a handle that no
  marker carries), so its result is an option.
\<close>

partial_function (option) rspq_wait_syncpoint ::
  "rspq_syncpoint_t \<Rightarrow> rspq_sync \<Rightarrow> nat \<Rightarrow> (rspq_sync \<times> nat) option" where
  "rspq_wait_syncpoint h s n =
     (if rspq_check_syncpoint h s then Some (s, n)
      else rspq_wait_syncpoint h (rspq_consumer_marker s) (Suc n))"

text \<open>
  Modelled from the spec: the runs of the syncpoint manager.  Producer and consumer
  run concurrently (section 5), the counter being "written only by the consumer via
  marker-command side effect, read by the producer": a run is any interleaving of
  syncpoint creations by the producer and marker executions by the consumer, from
  the initial state.  A run yields the state and the handles returned so far, in
  order.
\<close>

datatype sync_event = Create | Consume

fun sync_step ::
  "sync_event \<Rightarrow> rspq_sync \<times> rspq_syncpoint_t list \<Rightarrow> rspq_sync \<times> rspq_syncpoint_t list" where
  "sync_step Create (s, hs) = (snd (rspq_syncpoint s), hs @ [fst (rspq_syncpoint s)])"
| "sync_step Consume (s, hs) = (rspq_consumer_marker s, hs)"

definition sync_run :: "sync_event list \<Rightarrow> rspq_sync \<times> rspq_syncpoint_t list" where
  "sync_run evs = fold sync_step evs (rspq_sync_init, [])"

text \<open>
  Modelled from the spec: the state of the two queues and of the consumer, as far as
  the order of the commands goes (sections 3 and 4.6); the declarations are missing
  from the sources.  The commands of the normal queue and those of the high-priority
  queue ("a second ring buffer, structurally identical to the normal one") that the
  consumer has not yet taken, oldest first; whether a high-priority segment is open;
  the command that the consumer is executing, if any; and the commands that the
  consumer has taken so far, in the order in which it took them, each with the queue
  it came from.  A command is one item of its queue, of any type \<open>'c\<close>: its words and
  their place in memory are the matter of the write macros above.
\<close>

datatype 'c rspq_seen = Seen_highpri 'c | Seen_normal 'c

record 'c rspq_prio =
  prio_normal :: "'c list"
  prio_highpri :: "'c list"
  prio_open :: bool
  prio_current :: "'c option"
  prio_seen :: "'c rspq_seen list"

text \<open>
  Modelled from the spec: the queues after \<open>init\<close>, which is missing from the sources:
  both empty, no high-priority segment open, the consumer idle.
\<close>

definition rspq_prio_init :: "'c rspq_prio" where
  "rspq_prio_init = \<lparr>prio_normal = [], prio_highpri = [], prio_open = False,
                      prio_current = None, prio_seen = []\<rparr>"

text \<open>
  Modelled from the spec: the bodies of \<^verbatim>\<open>rspq_highpri_begin\<close> and
  \<^verbatim>\<open>rspq_highpri_end\<close>, missing from the sources.  Section 4.6: normal, then
  \<open>highpri_begin\<close>, then highpri-active, then \<open>highpri_end\<close>, then normal.  "Opening
  the channel appends a preemption request": the consumer sees that a segment is
  open.
\<close>

definition rspq_highpri_begin :: "'c rspq_prio \<Rightarrow> 'c rspq_prio" where
  "rspq_highpri_begin s = s\<lparr>prio_open := True\<rparr>"

definition rspq_highpri_end :: "'c rspq_prio \<Rightarrow> 'c rspq_prio" where
  "rspq_highpri_end s = s\<lparr>prio_open := False\<rparr>"

text \<open>
  Modelled from the spec: the queue that a written command goes to; the function that
  redirects the cursor of the write macro is missing from the sources.  Section 4.6:
  "While active, all writer calls are redirected to the high-priority ring buffer
  instead of the normal one."
\<close>

definition rspq_prio_write :: "'c \<Rightarrow> 'c rspq_prio \<Rightarrow> 'c rspq_prio" where
  "rspq_prio_write c s =
     (if prio_open s then s\<lparr>prio_highpri := prio_highpri s @ [c]\<rparr>
      else s\<lparr>prio_normal := prio_normal s @ [c]\<rparr>)"

text \<open>
  Modelled from the spec: the consumer, whose microcode is missing from the sources.
  It executes one command at a time, for as long as the command takes, and is not
  interrupted within it (section 4.6: "preemption is non-interruptible mid-command"):
  \<open>rspq_consumer_finish\<close> is the end of the current command, and
  \<open>rspq_consumer_fetch\<close> does nothing while a command is being executed.  Otherwise it
  takes the next command.  Section 4.6: the consumer "finishes its current command
  and then switches to draining the high-priority buffer until it is exhausted and
  closed, after which it resumes the normal buffer exactly where it left off".  So the
  next command is the oldest of the high-priority queue if there is one; there is none
  to take while that queue is empty and a segment is open (the header: the consumer
  "switches to the high-priority queue, waiting for commands"); and it is the oldest of
  the normal queue otherwise.
\<close>

definition rspq_consumer_finish :: "'c rspq_prio \<Rightarrow> 'c rspq_prio" where
  "rspq_consumer_finish s = s\<lparr>prio_current := None\<rparr>"

definition rspq_consumer_fetch :: "'c rspq_prio \<Rightarrow> 'c rspq_prio" where
  "rspq_consumer_fetch s =
     (if prio_current s \<noteq> None then s
      else case prio_highpri s of
             c # cs \<Rightarrow> s\<lparr>prio_highpri := cs, prio_current := Some c,
                          prio_seen := prio_seen s @ [Seen_highpri c]\<rparr>
           | [] \<Rightarrow>
               if prio_open s then s
               else case prio_normal s of
                      [] \<Rightarrow> s
                    | c # cs \<Rightarrow> s\<lparr>prio_normal := cs, prio_current := Some c,
                                   prio_seen := prio_seen s @ [Seen_normal c]\<rparr>)"

text \<open>
  Modelled from the spec: the runs of the two queues.  Producer and consumer run
  concurrently (section 5, "two independent, concurrently-running execution
  contexts"): a run is any interleaving of the producer's calls (opening and closing
  a high-priority segment, writing a command) and of the consumer's steps (taking a
  command, finishing it), from the initial state or from a given one.
\<close>

datatype 'c rspq_event = Highpri_begin | Highpri_end | Write 'c | Fetch | Finish

fun rspq_prio_step :: "'c rspq_event \<Rightarrow> 'c rspq_prio \<Rightarrow> 'c rspq_prio" where
  "rspq_prio_step Highpri_begin s = rspq_highpri_begin s"
| "rspq_prio_step Highpri_end s = rspq_highpri_end s"
| "rspq_prio_step (Write c) s = rspq_prio_write c s"
| "rspq_prio_step Fetch s = rspq_consumer_fetch s"
| "rspq_prio_step Finish s = rspq_consumer_finish s"

definition rspq_prio_from :: "'c rspq_prio \<Rightarrow> 'c rspq_event list \<Rightarrow> 'c rspq_prio" where
  "rspq_prio_from s evs = fold rspq_prio_step evs s"

definition rspq_prio_run :: "'c rspq_event list \<Rightarrow> 'c rspq_prio" where
  "rspq_prio_run evs = rspq_prio_from rspq_prio_init evs"



section \<open>Auxiliary definitions\<close>

text \<open>The memory after the words \<open>ws\<close> have been stored from address \<open>p\<close> on.\<close>

definition store_words :: "nat \<Rightarrow> u32 list \<Rightarrow> (nat \<Rightarrow> u32) \<Rightarrow> nat \<Rightarrow> u32" where
  "store_words p ws m = (\<lambda>a. if p \<le> a \<and> a < p + length ws then ws ! (a - p) else m a)"

text \<open>
  The number of syncpoints created and of markers executed in a run, and the state
  and handles that belong to such a pair of numbers.
\<close>

fun sync_count :: "sync_event \<Rightarrow> nat \<times> nat \<Rightarrow> nat \<times> nat" where
  "sync_count Create (n, a) = (Suc n, a)"
| "sync_count Consume (n, a) = (n, if a < n then Suc a else a)"

definition sync_counts :: "sync_event list \<Rightarrow> nat \<times> nat" where
  "sync_counts evs = fold sync_count evs (0, 0)"

definition sync_state_of :: "nat \<times> nat \<Rightarrow> rspq_sync \<times> rspq_syncpoint_t list" where
  "sync_state_of c =
     (\<lparr>sync_counter = of_nat (fst c), sync_acked = of_nat (snd c),
       sync_markers = map of_nat [Suc (snd c) ..< Suc (fst c)]\<rparr>,
      map of_nat [1 ..< Suc (fst c)])"

text \<open>
  The commands of the high-priority queue and of the normal queue among those the
  consumer has taken; the commands written by a list of events; and the stream of
  each queue, which is the commands the consumer has taken from it followed by those
  it has not yet taken.
\<close>

fun seen_highpri :: "'c rspq_seen list \<Rightarrow> 'c list" where
  "seen_highpri [] = []"
| "seen_highpri (Seen_highpri c # xs) = c # seen_highpri xs"
| "seen_highpri (Seen_normal c # xs) = seen_highpri xs"

fun seen_normal :: "'c rspq_seen list \<Rightarrow> 'c list" where
  "seen_normal [] = []"
| "seen_normal (Seen_highpri c # xs) = seen_normal xs"
| "seen_normal (Seen_normal c # xs) = c # seen_normal xs"

fun is_seen_normal :: "'c rspq_seen \<Rightarrow> bool" where
  "is_seen_normal (Seen_normal c) = True"
| "is_seen_normal (Seen_highpri c) = False"

fun writes_of :: "'c rspq_event list \<Rightarrow> 'c list" where
  "writes_of [] = []"
| "writes_of (Write c # evs) = c # writes_of evs"
| "writes_of (e # evs) = writes_of evs"

definition highpri_stream :: "'c rspq_prio \<Rightarrow> 'c list" where
  "highpri_stream s = seen_highpri (prio_seen s) @ prio_highpri s"

definition normal_stream :: "'c rspq_prio \<Rightarrow> 'c list" where
  "normal_stream s = seen_normal (prio_seen s) @ prio_normal s"

text \<open>
  The consumer has taken at least \<open>H\<close> commands of the high-priority queue before
  each command of the normal queue that it took after \<open>L\<close> others.
\<close>

definition highpri_first :: "nat \<Rightarrow> nat \<Rightarrow> 'c rspq_prio \<Rightarrow> bool" where
  "highpri_first L H s =
     (\<forall>p < length (prio_seen s).
        is_seen_normal (prio_seen s ! p) \<and> L \<le> length (seen_normal (take p (prio_seen s)))
        \<longrightarrow> H \<le> length (seen_highpri (take p (prio_seen s))))"

text \<open>
  The calls that respect the maximum command size, the calls that are writes, and
  what holds of the engine while a block is being recorded that was begun in the
  state \<open>s0\<close>: the cursor is in the last chunk of the private buffer, at or below the
  sentinel, which leaves room for a command and a jump; the chunks share no word with
  the live ring buffer; the memory differs from that of \<open>s0\<close> within the private
  buffer only; and the rest of the engine is as in \<open>s0\<close>.
\<close>

fun rspq_call_in_contract :: "rspq_call \<Rightarrow> bool" where
  "rspq_call_in_contract (Call_write cmd_id args) =
     (length (rspq_cmd_words cmd_id args) \<le> RSPQ_MAX_COMMAND_SIZE)"
| "rspq_call_in_contract Call_flush = True"

fun rspq_is_write :: "rspq_call \<Rightarrow> bool" where
  "rspq_is_write (Call_write cmd_id args) = True"
| "rspq_is_write Call_flush = False"

definition rspq_recording :: "rspq_ctx \<Rightarrow> rspq_ctx \<Rightarrow> bool" where
  "rspq_recording s0 s =
     (case rspq_block s of
        None \<Rightarrow> False
      | Some b \<Rightarrow>
          block_chunks b \<noteq> []
        \<and> fst (last (block_chunks b)) \<le> rspq_cur_pointer s
        \<and> rspq_cur_pointer s \<le> rspq_cur_sentinel s
        \<and> rspq_cur_sentinel s + RSPQ_MAX_COMMAND_SIZE + 1
             \<le> fst (last (block_chunks b)) + snd (last (block_chunks b))
        \<and> (\<forall>c \<in> set (block_chunks b). rspq_chunk_fresh s0 c)
        \<and> (\<forall>a. rdram s a \<noteq> rdram s0 a \<longrightarrow> rspq_in_block b a)
        \<and> rspq_buffers s = rspq_buffers s0
        \<and> rspq_buf_size s = rspq_buf_size s0
        \<and> rspq_buf_idx s = rspq_buf_idx s0
        \<and> rspq_saved s = (rspq_cur_pointer s0, rspq_cur_sentinel s0)
        \<and> rspq_highpri_open s = rspq_highpri_open s0
        \<and> rspq_consumer_idle s = rspq_consumer_idle s0)"

text \<open>Concrete states and inputs, for the instances below.\<close>

definition rspq_test_state :: "nat \<Rightarrow> nat \<Rightarrow> rspq_state" where
  "rspq_test_state cur sentinel =
     \<lparr>rdram = (\<lambda>a. 0), rspq_cur_pointer = cur, rspq_cur_sentinel = sentinel\<rparr>"

definition nb_test :: "rspq_state \<Rightarrow> rspq_state" where
  "nb_test s = s\<lparr>rspq_cur_pointer := 1000, rspq_cur_sentinel := 1100\<rparr>"

definition rspq_test_jump :: "nat \<Rightarrow> u32" where
  "rspq_test_jump a = 0x02000000 OR of_nat a"

definition rspq_test_ctx :: "nat \<Rightarrow> nat \<Rightarrow> rspq_ctx" where
  "rspq_test_ctx cur sentinel =
     \<lparr>rdram = (\<lambda>a. 0), rspq_cur_pointer = cur, rspq_cur_sentinel = sentinel,
      rspq_buffers = (0, 512), rspq_buf_size = 512, rspq_buf_idx = 0,
      rspq_block = None, rspq_saved = (0, 0), rspq_highpri_open = False,
      rspq_consumer_idle = True\<rparr>"

definition rspq_test_alloc :: "rspq_ctx \<Rightarrow> nat \<times> nat" where
  "rspq_test_alloc s =
     (case rspq_block s of
        None \<Rightarrow> (2000, 32)
      | Some b \<Rightarrow> (2000 + 32 * length (block_chunks b), 32))"

definition rspq_test_recording :: rspq_ctx where
  "rspq_test_recording =
     \<lparr>rdram = (\<lambda>a. 0), rspq_cur_pointer = 2000, rspq_cur_sentinel = 2015,
      rspq_buffers = (0, 512), rspq_buf_size = 512, rspq_buf_idx = 0,
      rspq_block = Some \<lparr>block_chunks = [(2000, 32)]\<rparr>, rspq_saved = (100, 496),
      rspq_highpri_open = False, rspq_consumer_idle = True\<rparr>"

definition rspq_test_calls :: "rspq_call list" where
  "rspq_test_calls =
     [Call_write 0x12 [1, 2], Call_flush, Call_write 0x34 [],
      Call_write 0x56 [1, 2, 3, 4, 5, 6, 7, 8, 9, 10, 11, 12, 13],
      Call_write 0x78 [5]]"

definition sync_test_run :: "sync_event list" where
  "sync_test_run = [Create, Create, Consume, Create]"

definition rspq_prio_test_pre :: "string rspq_event list" where
  "rspq_prio_test_pre = [Write ''A'', Write ''B'', Fetch]"

definition rspq_prio_test_seg :: "string rspq_event list" where
  "rspq_prio_test_seg = [Write ''X'', Fetch, Write ''Y'']"

definition rspq_prio_test_post :: "string rspq_event list" where
  "rspq_prio_test_post = [Write ''N'', Finish, Fetch, Finish, Fetch, Finish, Fetch, Finish, Fetch]"


section \<open>Running the statements of a write\<close>

lemma run_stmts_Nil: "run_stmts [] x = x"
  by (simp add: run_stmts_def)

lemma run_stmts_Cons: "run_stmts (f # fs) x = run_stmts fs (f x)"
  by (simp add: run_stmts_def)

lemma run_stmts_append: "run_stmts (fs @ gs) x = run_stmts gs (run_stmts fs x)"
  by (simp add: run_stmts_def)

lemma store_words_Nil: "store_words p [] m = m"
  by (auto simp: store_words_def fun_eq_iff)

lemma store_words_Cons:
  "store_words (Suc p) ws (\<lambda>a. if a = p then w else m a) = store_words p (w # ws) m"
  by (auto simp: store_words_def fun_eq_iff nth_Cons' Suc_diff_le)

lemma store_words_first:
  "(store_words (Suc p) ws m)(p := w) = store_words p (w # ws) m"
  by (auto simp: store_words_def fun_eq_iff nth_Cons' Suc_diff_le)

lemma store_words_append:
  "store_words (p + length xs) ys (store_words p xs m) = store_words p (xs @ ys) m"
  by (auto simp: store_words_def fun_eq_iff nth_append)

lemma store_words_outside:
  "a < p \<or> p + length ws \<le> a \<Longrightarrow> store_words p ws m a = m a"
  by (auto simp: store_words_def)

lemma store_words_inside:
  "p \<le> a \<Longrightarrow> a < p + length ws \<Longrightarrow> store_words p ws m a = ws ! (a - p)"
  by (simp add: store_words_def)

lemma map_store_words: "map (store_words p ws m) [p ..< p + length ws] = ws"
  by (rule nth_equalityI) (simp_all add: store_words_def)

lemma run_write_args:
  "run_stmts (map rspq_write_arg rest) (p, s) =
     (p + length rest, s\<lparr>rdram := store_words p rest (rdram s)\<rparr>)"
proof (induction rest arbitrary: p s)
  case Nil
  then show ?case by (simp add: run_stmts_Nil store_words_Nil)
next
  case (Cons x xs)
  then show ?case
    by (simp add: run_stmts_Cons rspq_write_arg_def store_words_Cons)
qed

lemma rspq_write0_stored_eq:
  "rspq_write0_stored cmd_id s =
     s\<lparr>rdram := store_words (rspq_cur_pointer s) [push_bit 24 cmd_id] (rdram s),
       rspq_cur_pointer := rspq_cur_pointer s + 1\<rparr>"
  by (simp add: rspq_write0_stored_def rspq_write0_body_def rspq_write_prolog_def run_stmts_Cons
      run_stmts_Nil rspq_store_first_def rspq_advance_def store_words_Nil
      flip: store_words_first)

lemma rspq_write1_stored_eq:
  "rspq_write1_stored cmd_id arg0 rest s =
     s\<lparr>rdram := store_words (rspq_cur_pointer s) ((push_bit 24 cmd_id OR arg0) # rest) (rdram s),
       rspq_cur_pointer := rspq_cur_pointer s + (1 + length rest)\<rparr>"
  by (simp add: rspq_write1_stored_def rspq_write1_body_def rspq_write_prolog_def run_stmts_append
      run_write_args run_stmts_Cons run_stmts_Nil rspq_store_first_def rspq_advance_def
      flip: store_words_first)

lemma rspq_write_stored_eq:
  "rspq_write_stored cmd_id args s =
     s\<lparr>rdram := store_words (rspq_cur_pointer s) (rspq_cmd_words cmd_id args) (rdram s),
       rspq_cur_pointer := rspq_cur_pointer s + length (rspq_cmd_words cmd_id args)\<rparr>"
  by (cases args)
     (simp_all add: rspq_write_stored_def rspq_cmd_words_def rspq_write0_stored_eq rspq_write1_stored_eq)

lemma rspq_write_eq_epilog:
  "rspq_write nb cmd_id args s = rspq_write_epilog nb (rspq_write_stored cmd_id args s)"
  by (cases args) (simp_all add: rspq_write_def rspq_write_stored_def rspq_write0_def rspq_write1_def)

lemma rspq_write_all_Nil: "rspq_write_all nb [] s = s"
  by (simp add: rspq_write_all_def)

lemma rspq_write_all_Cons:
  "rspq_write_all nb (c # cmds) s = rspq_write_all nb cmds (rspq_write nb (fst c) (snd c) s)"
  by (simp add: rspq_write_all_def)

lemma rspq_write_all_snoc:
  "rspq_write_all nb (cmds @ [c]) s = rspq_write nb (fst c) (snd c) (rspq_write_all nb cmds s)"
  by (simp add: rspq_write_all_def)

lemma rspq_write_below_sentinel:
  assumes "rspq_cur_pointer s + length (rspq_cmd_words cmd_id args) \<le> rspq_cur_sentinel s"
  shows "rspq_write nb cmd_id args s = rspq_write_stored cmd_id args s"
  using assms by (simp add: rspq_write_eq_epilog rspq_write_epilog_def rspq_write_stored_eq)

lemma rspq_write_all_below_sentinel:
  assumes "rspq_cur_pointer s + length (rspq_words_of cmds) \<le> rspq_cur_sentinel s"
  shows "rspq_write_all nb cmds s =
     s\<lparr>rdram := store_words (rspq_cur_pointer s) (rspq_words_of cmds) (rdram s),
       rspq_cur_pointer := rspq_cur_pointer s + length (rspq_words_of cmds)\<rparr>"
  using assms
proof (induction cmds arbitrary: s)
  case Nil
  then show ?case by (simp add: rspq_write_all_Nil rspq_words_of_def store_words_Nil)
next
  case (Cons c cmds)
  let ?ws = "rspq_cmd_words (fst c) (snd c)"
  let ?s1 = "rspq_write_stored (fst c) (snd c) s"
  have w: "rspq_words_of (c # cmds) = ?ws @ rspq_words_of cmds"
    by (simp add: rspq_words_of_def)
  have step: "rspq_write nb (fst c) (snd c) s = ?s1"
    using Cons.prems by (intro rspq_write_below_sentinel) (simp add: w)
  have pre: "rspq_cur_pointer ?s1 + length (rspq_words_of cmds) \<le> rspq_cur_sentinel ?s1"
    using Cons.prems by (simp add: rspq_write_stored_eq w)
  show ?case
    by (simp add: rspq_write_all_Cons step Cons.IH [OF pre])
       (simp add: rspq_write_stored_eq w store_words_append add.assoc)
qed


section \<open>Round trip of the written words\<close>

text \<open>
  Claim C1.  In every sequence of \<^verbatim>\<open>rspq_write\<close> invocations whose commands have at
  most \<^verbatim>\<open>RSPQ_MAX_COMMAND_SIZE\<close> words, each invocation stores the words of its
  command (the first word and the \<open>n\<close> words after it, one for each argument after
  the first) from the cursor it finds on, changes no other word, and moves the
  cursor by exactly these \<open>n + 1\<close> words; what follows is the epilog, which leaves
  this state as it is unless the cursor has passed the sentinel.  So as long as the
  cursor stays below the sentinel the queue holds the words of the commands,
  contiguous and in the order of the invocations, from the first cursor on, and the
  cursor has moved by their number.
\<close>

theorem rspq_write_round_trip:
  fixes nb :: "'a rspq_state_scheme \<Rightarrow> 'a rspq_state_scheme"
  assumes "\<forall>c \<in> set cmds. length (rspq_cmd_words (fst c) (snd c)) \<le> RSPQ_MAX_COMMAND_SIZE"
  shows "(\<forall>i < length cmds.
           (let si = rspq_write_all nb (take i cmds) s;
                ws = rspq_cmd_words (fst (cmds ! i)) (snd (cmds ! i));
                st = rspq_write_stored (fst (cmds ! i)) (snd (cmds ! i)) si
            in length ws = 1 + length (tl (snd (cmds ! i)))
             \<and> map (rdram st) [rspq_cur_pointer si ..< rspq_cur_pointer si + length ws] = ws
             \<and> (\<forall>a. a < rspq_cur_pointer si \<or> rspq_cur_pointer si + length ws \<le> a
                      \<longrightarrow> rdram st a = rdram si a)
             \<and> rspq_cur_pointer st = rspq_cur_pointer si + length ws
             \<and> rspq_write_all nb (take (Suc i) cmds) s = rspq_write_epilog nb st
             \<and> (rspq_cur_pointer st \<le> rspq_cur_sentinel st
                  \<longrightarrow> rspq_write_all nb (take (Suc i) cmds) s = st)))
       \<and> (rspq_cur_pointer s + length (rspq_words_of cmds) \<le> rspq_cur_sentinel s \<longrightarrow>
           (let s' = rspq_write_all nb cmds s; n = length (rspq_words_of cmds) in
              rspq_cur_pointer s' = rspq_cur_pointer s + n
            \<and> map (rdram s') [rspq_cur_pointer s ..< rspq_cur_pointer s + n] = rspq_words_of cmds
            \<and> (\<forall>a. a < rspq_cur_pointer s \<or> rspq_cur_pointer s + n \<le> a
                      \<longrightarrow> rdram s' a = rdram s a)))"
proof -
  have part1: "let si = rspq_write_all nb (take i cmds) s;
                ws = rspq_cmd_words (fst (cmds ! i)) (snd (cmds ! i));
                st = rspq_write_stored (fst (cmds ! i)) (snd (cmds ! i)) si
            in length ws = 1 + length (tl (snd (cmds ! i)))
             \<and> map (rdram st) [rspq_cur_pointer si ..< rspq_cur_pointer si + length ws] = ws
             \<and> (\<forall>a. a < rspq_cur_pointer si \<or> rspq_cur_pointer si + length ws \<le> a
                      \<longrightarrow> rdram st a = rdram si a)
             \<and> rspq_cur_pointer st = rspq_cur_pointer si + length ws
             \<and> rspq_write_all nb (take (Suc i) cmds) s = rspq_write_epilog nb st
             \<and> (rspq_cur_pointer st \<le> rspq_cur_sentinel st
                  \<longrightarrow> rspq_write_all nb (take (Suc i) cmds) s = st)"
    if i: "i < length cmds" for i
  proof -
    let ?si = "rspq_write_all nb (take i cmds) s"
    let ?c = "cmds ! i"
    let ?ws = "rspq_cmd_words (fst ?c) (snd ?c)"
    let ?st = "rspq_write_stored (fst ?c) (snd ?c) ?si"
    have len: "length ?ws = 1 + length (tl (snd ?c))"
      by (cases "snd ?c") (simp_all add: rspq_cmd_words_def)
    have mem: "map (rdram ?st) [rspq_cur_pointer ?si ..< rspq_cur_pointer ?si + length ?ws] = ?ws"
      by (simp add: rspq_write_stored_eq map_store_words)
    have out: "\<forall>a. a < rspq_cur_pointer ?si \<or> rspq_cur_pointer ?si + length ?ws \<le> a
                 \<longrightarrow> rdram ?st a = rdram ?si a"
      by (simp add: rspq_write_stored_eq store_words_outside)
    have cur: "rspq_cur_pointer ?st = rspq_cur_pointer ?si + length ?ws"
      by (simp add: rspq_write_stored_eq)
    have "take (Suc i) cmds = take i cmds @ [?c]"
      using i by (simp add: take_Suc_conv_app_nth)
    then have run: "rspq_write_all nb (take (Suc i) cmds) s = rspq_write_epilog nb ?st"
      by (simp add: rspq_write_all_snoc rspq_write_eq_epilog)
    have stay: "rspq_cur_pointer ?st \<le> rspq_cur_sentinel ?st
                  \<longrightarrow> rspq_write_all nb (take (Suc i) cmds) s = ?st"
      by (simp add: run rspq_write_epilog_def)
    show ?thesis
      unfolding Let_def using len mem out cur run stay by blast
  qed
  have part2: "let s' = rspq_write_all nb cmds s; n = length (rspq_words_of cmds) in
              rspq_cur_pointer s' = rspq_cur_pointer s + n
            \<and> map (rdram s') [rspq_cur_pointer s ..< rspq_cur_pointer s + n] = rspq_words_of cmds
            \<and> (\<forall>a. a < rspq_cur_pointer s \<or> rspq_cur_pointer s + n \<le> a
                      \<longrightarrow> rdram s' a = rdram s a)"
    if below: "rspq_cur_pointer s + length (rspq_words_of cmds) \<le> rspq_cur_sentinel s"
    by (simp add: Let_def rspq_write_all_below_sentinel [OF below] map_store_words
        store_words_outside)
  show ?thesis
    using part1 part2 by blast
qed

theorem rspq_write_round_trip_witness:
  "rspq_cur_pointer (rspq_write_all id [(0x12, [1, 2]), (0x34, []), (0x56, [7])] (rspq_test_state 10 100)) = 14
   \<and> map (rdram (rspq_write_all id [(0x12, [1, 2]), (0x34, []), (0x56, [7])] (rspq_test_state 10 100)))
        [10 ..< 14] = [0x12000001, 2, 0x34000000, 0x56000007]
   \<and> rspq_cur_pointer (rspq_write_all id (take 1 [(0x12, [1, 2]), (0x34, []), (0x56, [7])])
        (rspq_test_state 10 100)) = 12"
proof -
  let ?cmds = "[(0x12, [1, 2]), (0x34, []), (0x56, [7])] :: (u32 \<times> u32 list) list"
  let ?s = "rspq_test_state 10 100"
  have h: "\<forall>c \<in> set ?cmds. length (rspq_cmd_words (fst c) (snd c)) \<le> RSPQ_MAX_COMMAND_SIZE"
    by (simp add: rspq_cmd_words_def RSPQ_MAX_COMMAND_SIZE_def)
  have ws: "rspq_words_of ?cmds = [0x12000001, 2, 0x34000000, 0x56000007]"
    by (simp add: rspq_words_of_def rspq_cmd_words_def)
  have below: "rspq_cur_pointer ?s + length (rspq_words_of ?cmds) \<le> rspq_cur_sentinel ?s"
    by (simp add: ws) (simp add: rspq_test_state_def)
  note t = rspq_write_round_trip [OF h, of id ?s, unfolded Let_def]
  note whole = t [THEN conjunct2, rule_format, OF below]
  have 2: "rspq_cur_pointer (rspq_write_all id ?cmds ?s) = 14"
    using whole [THEN conjunct1] by (simp add: ws) (simp add: rspq_test_state_def)
  have 3: "map (rdram (rspq_write_all id ?cmds ?s)) [10 ..< 14]
         = [0x12000001, 2, 0x34000000, 0x56000007]"
    using whole [THEN conjunct2, THEN conjunct1] by (simp add: ws) (simp add: rspq_test_state_def)
  have i: "0 < length ?cmds" by simp
  note first = t [THEN conjunct1, rule_format, OF i]
  have 1: "rspq_cur_pointer (rspq_write_all id (take 1 ?cmds) ?s) = 12"
    using first [THEN conjunct2, THEN conjunct2, THEN conjunct2, THEN conjunct2, THEN conjunct2]
      first [THEN conjunct2, THEN conjunct2, THEN conjunct2, THEN conjunct1]
    by (simp add: rspq_write_all_def rspq_cmd_words_def rspq_test_state_def rspq_write_stored_eq)
  show ?thesis using 1 2 3 by simp
qed


section \<open>The first word of a command\<close>

lemma bit_below_bound:
  fixes w :: u32
  assumes "w < 2 ^ n"
  shows "bit w k \<longleftrightarrow> k < n \<and> bit w k"
proof -
  have "w AND mask n = w" using assms by (rule less_mask_eq)
  then have "take_bit n w = w" by (simp add: take_bit_eq_mask)
  then have "bit w k = bit (take_bit n w) k" by simp
  then show ?thesis by (simp add: bit_take_bit_iff)
qed

lemma first_word_overlay:
  fixes cmd_id arg0 :: u32
  assumes "cmd_id < 256" "arg0 < 2 ^ 24"
  shows "drop_bit 28 (push_bit 24 cmd_id OR arg0) = drop_bit 4 cmd_id"
proof (rule bit_word_eqI)
  fix k assume "k < LENGTH(32)"
  have a: "\<not> bit arg0 (28 + k)"
    using bit_below_bound [OF assms(2), of "28 + k"] by simp
  have c: "bit cmd_id (4 + k) \<Longrightarrow> k < 4"
    using bit_below_bound [of cmd_id 8 "4 + k"] assms(1) by simp
  show "bit (drop_bit 28 (push_bit 24 cmd_id OR arg0)) k = bit (drop_bit 4 cmd_id) k"
    using a c by (auto simp: bit_simps)
qed

lemma first_word_index:
  fixes cmd_id arg0 :: u32
  assumes "arg0 < 2 ^ 24"
  shows "take_bit 4 (drop_bit 24 (push_bit 24 cmd_id OR arg0)) = take_bit 4 cmd_id"
proof (rule bit_word_eqI)
  fix k assume "k < LENGTH(32)"
  have a: "\<not> bit arg0 (24 + k)"
    using bit_below_bound [OF assms, of "24 + k"] by simp
  show "bit (take_bit 4 (drop_bit 24 (push_bit 24 cmd_id OR arg0))) k = bit (take_bit 4 cmd_id) k"
    using a by (auto simp: bit_simps)
qed

lemma first_word_payload:
  fixes cmd_id arg0 :: u32
  assumes "arg0 < 2 ^ 24"
  shows "take_bit 24 (push_bit 24 cmd_id OR arg0) = arg0"
proof (rule bit_word_eqI)
  fix k assume "k < LENGTH(32)"
  have a: "bit arg0 k \<Longrightarrow> k < 24"
    using bit_below_bound [OF assms, of k] by simp
  show "bit (take_bit 24 (push_bit 24 cmd_id OR arg0)) k = bit arg0 k"
    using a by (auto simp: bit_simps)
qed

text \<open>
  Claim C2.  For \<^verbatim>\<open>rspq_write(cmd_id, arg0, ...)\<close> with an 8-bit command id and a
  first argument below \<open>2^24\<close>, the word stored at the cursor is
  \<open>(cmd_id << 24) | arg0\<close>: its bits 31--28 are the upper nibble of the command id
  (the overlay id; the commands of the engine itself are those with overlay id 0),
  its bits 27--24 the lower nibble (the command index) and its bits 23--0 the
  argument.  For \<^verbatim>\<open>rspq_write(cmd_id)\<close> the word stored at the cursor is
  \<open>cmd_id << 24\<close>.
\<close>

theorem rspq_write_first_word:
  fixes cmd_id arg0 :: u32
  assumes "cmd_id < 256" and "arg0 < 2 ^ 24"
  shows "(let w = rdram (rspq_write_stored cmd_id (arg0 # rest) s) (rspq_cur_pointer s) in
            w = push_bit 24 cmd_id OR arg0
          \<and> drop_bit 28 w = drop_bit 4 cmd_id
          \<and> take_bit 4 (drop_bit 24 w) = take_bit 4 cmd_id
          \<and> take_bit 24 w = arg0)
       \<and> rdram (rspq_write_stored cmd_id [] s) (rspq_cur_pointer s) = push_bit 24 cmd_id"
proof -
  have 1: "rdram (rspq_write_stored cmd_id (arg0 # rest) s) (rspq_cur_pointer s)
             = push_bit 24 cmd_id OR arg0"
    by (simp add: rspq_write_stored_eq rspq_cmd_words_def store_words_def)
  have 2: "rdram (rspq_write_stored cmd_id [] s) (rspq_cur_pointer s) = push_bit 24 cmd_id"
    by (simp add: rspq_write_stored_eq rspq_cmd_words_def store_words_def)
  show ?thesis
    unfolding Let_def 1 2
    using first_word_overlay [OF assms] first_word_index [OF assms(2)]
      first_word_payload [OF assms(2)]
    by simp
qed

theorem rspq_write_first_word_witness:
  "(let w = rdram (rspq_write_stored 0x37 [0x123456, 7] (rspq_test_state 4 100)) 4 in
      w = 0x37123456 \<and> drop_bit 28 w = 3 \<and> take_bit 4 (drop_bit 24 w) = 7
      \<and> take_bit 24 w = 0x123456)
   \<and> rdram (rspq_write_stored 0x37 [] (rspq_test_state 4 100)) 4 = 0x37000000"
  using rspq_write_first_word [of "0x37" "0x123456" "[7]" "rspq_test_state 4 100"]
  by (simp add: Let_def rspq_test_state_def)


section \<open>The check of the cursor after a write\<close>




section \<open>Syncpoints\<close>

lemma sync_counts_snoc: "sync_counts (evs @ [e]) = sync_count e (sync_counts evs)"
  by (simp add: sync_counts_def)

lemma sync_run_snoc: "sync_run (evs @ [e]) = sync_step e (sync_run evs)"
  by (simp add: sync_run_def)

lemma sync_counts_le: "snd (sync_counts evs) \<le> fst (sync_counts evs)"
proof (induction evs rule: rev_induct)
  case Nil
  then show ?case by (simp add: sync_counts_def)
next
  case (snoc e evs)
  then show ?case
    by (cases e; cases "sync_counts evs") (auto simp: sync_counts_snoc)
qed

lemma sync_step_state_of:
  assumes "snd c \<le> fst c"
  shows "sync_step e (sync_state_of c) = sync_state_of (sync_count e c)"
proof (cases e)
  case Create
  obtain n a where c: "c = (n, a)" by (cases c)
  with assms have "a \<le> n" by simp
  then show ?thesis
    by (simp add: Create c sync_state_of_def rspq_syncpoint_def Let_def)
next
  case Consume
  obtain n a where c: "c = (n, a)" by (cases c)
  with assms have le: "a \<le> n" by simp
  show ?thesis
  proof (cases "a < n")
    case True
    then have "[Suc a ..< Suc n] = Suc a # [Suc (Suc a) ..< Suc n]"
      by (simp add: upt_conv_Cons)
    then show ?thesis
      using True by (simp add: Consume c sync_state_of_def rspq_consumer_marker_def)
  next
    case False
    with le have "a = n" by simp
    then show ?thesis
      by (simp add: Consume c sync_state_of_def rspq_consumer_marker_def)
  qed
qed

lemma sync_run_state_of: "sync_run evs = sync_state_of (sync_counts evs)"
proof (induction evs rule: rev_induct)
  case Nil
  then show ?case
    by (simp add: sync_run_def sync_counts_def sync_state_of_def rspq_sync_init_def)
next
  case (snoc e evs)
  then show ?case
    by (simp add: sync_run_snoc sync_counts_snoc sync_step_state_of sync_counts_le)
qed

lemma sint_diff_of_nat:
  assumes "- (2 ^ 31) \<le> int a - int i" "int a - int i < 2 ^ 31"
  shows "sint (of_nat a - of_nat i :: 32 word) = int a - int i"
proof -
  have "(of_nat a - of_nat i :: 32 word) = word_of_int (int a - int i)"
    by simp
  then have "sint (of_nat a - of_nat i :: 32 word) = signed_take_bit 31 (int a - int i)"
    by (simp only: signed_of_int) simp
  then show ?thesis
    using assms by (simp add: signed_take_bit_int_eq_self)
qed

lemma sint_of_nat_small:
  assumes "i < 2 ^ 31"
  shows "sint (of_nat i :: 32 word) = int i"
  using sint_diff_of_nat [of i 0] assms by simp

lemma of_nat_inj_32:
  assumes "i < 2 ^ 32" "j < 2 ^ 32" "(of_nat i :: 32 word) = of_nat j"
  shows "i = j"
proof -
  have "take_bit 32 i = take_bit 32 j"
    using assms(3) by (simp add: word_of_nat_eq_iff)
  then show ?thesis
    using assms(1,2) by (simp add: take_bit_nat_eq_self)
qed

lemma sync_counts_created: "fst (sync_counts evs) = length (filter (\<lambda>e. e = Create) evs)"
proof (induction evs rule: rev_induct)
  case Nil
  then show ?case by (simp add: sync_counts_def)
next
  case (snoc e evs)
  then show ?case
    by (cases e; cases "sync_counts evs") (auto simp: sync_counts_snoc)
qed

lemma sync_counts_mono:
  "fst (sync_counts xs) \<le> fst (sync_counts (xs @ ys)) \<and> snd (sync_counts xs) \<le> snd (sync_counts (xs @ ys))"
proof (induction ys rule: rev_induct)
  case Nil
  then show ?case by simp
next
  case (snoc e ys)
  then show ?case
    by (cases e; cases "sync_counts (xs @ ys)") (auto simp: sync_counts_snoc simp flip: append_assoc)
qed

lemma sync_counts_take:
  "fst (sync_counts (take k evs)) \<le> fst (sync_counts evs) \<and> snd (sync_counts (take k evs)) \<le> snd (sync_counts evs)"
  using sync_counts_mono [of "take k evs" "drop k evs"] by simp

lemma sync_pending_iff:
  assumes "n < 2 ^ 32" "i < 2 ^ 32"
  shows "(of_nat i :: 32 word) \<in> set (map of_nat [Suc a ..< Suc n]) \<longleftrightarrow> a < i \<and> i \<le> n"
proof
  assume "(of_nat i :: 32 word) \<in> set (map of_nat [Suc a ..< Suc n])"
  then obtain j where "j \<in> {Suc a ..< Suc n}" and e: "(of_nat i :: 32 word) = of_nat j"
    unfolding set_map set_upt by blast
  then have j: "a < j" "j \<le> n" "(of_nat i :: 32 word) = of_nat j"
    by (simp_all only: atLeastLessThan_iff Suc_le_eq less_Suc_eq_le)
  then have "i = j"
    using assms by (intro of_nat_inj_32) auto
  with j show "a < i \<and> i \<le> n" by simp
next
  assume "a < i \<and> i \<le> n"
  then have "i \<in> {Suc a ..< Suc n}"
    by (simp only: atLeastLessThan_iff Suc_le_eq less_Suc_eq_le)
  then show "(of_nat i :: 32 word) \<in> set (map of_nat [Suc a ..< Suc n])"
    unfolding set_map set_upt by blast
qed

lemma sync_check_state_of:
  assumes "- (2 ^ 31) \<le> int a - int i" "int a - int i < 2 ^ 31"
  shows "rspq_check_syncpoint (of_nat i) (fst (sync_state_of (n, a))) \<longleftrightarrow> i \<le> a"
  using sint_diff_of_nat [OF assms]
  by (simp add: rspq_check_syncpoint_def sync_state_of_def)

lemma sync_state_of_simps:
  "sync_counter (fst (sync_state_of (n, a))) = of_nat n"
  "sync_acked (fst (sync_state_of (n, a))) = of_nat a"
  "sync_markers (fst (sync_state_of (n, a))) = map of_nat [Suc a ..< Suc n]"
  "snd (sync_state_of (n, a)) = map of_nat [1 ..< Suc n]"
  by (simp_all add: sync_state_of_def)

lemma sync_handle_cases:
  assumes "h \<in> set (snd (sync_state_of (n, a)))"
  obtains i where "h = of_nat i" "1 \<le> i" "i \<le> n"
proof -
  from assms obtain i where "i \<in> {1 ..< Suc n}" and "h = of_nat i"
    unfolding sync_state_of_simps set_map set_upt by blast
  then show ?thesis
    using that by (simp only: atLeastLessThan_iff less_Suc_eq_le)
qed

lemma sync_handles_sorted:
  assumes "n < 2 ^ 31"
  shows "sorted_wrt (\<lambda>x y. sint x < sint y) (snd (sync_state_of (n, a)))"
proof -
  have "sorted_wrt (\<lambda>i j. sint (of_nat i :: 32 word) < sint (of_nat j :: 32 word)) [1 ..< Suc n]"
  proof (rule sorted_wrt_mono_rel [where P = "(<)"])
    fix i j assume "i \<in> set [1 ..< Suc n]" "j \<in> set [1 ..< Suc n]" "i < j"
    then have "i \<le> n" "j \<le> n"
      by (simp_all only: set_upt atLeastLessThan_iff less_Suc_eq_le)
    then have "i < 2 ^ 31" "j < 2 ^ 31"
      using assms by linarith+
    then show "sint (of_nat i :: 32 word) < sint (of_nat j :: 32 word)"
      using \<open>i < j\<close> by (simp add: sint_of_nat_small)
  next
    show "sorted_wrt (<) [1 ..< Suc n]"
      by (rule sorted_wrt_upt)
  qed
  then show ?thesis
    by (simp only: sync_state_of_simps sorted_wrt_map)
qed

lemma sync_handle_facts:
  assumes "a \<le> n" "n < 2 ^ 31" "1 \<le> i" "i \<le> n"
  shows "0 < sint (of_nat i :: 32 word)"
    and "rspq_check_syncpoint (of_nat i) (fst (sync_state_of (n, a))) \<longleftrightarrow> i \<le> a"
    and "(of_nat i :: 32 word) \<in> set (sync_markers (fst (sync_state_of (n, a)))) \<longleftrightarrow> a < i"
proof -
  have i: "i < 2 ^ 31" using assms by simp
  then show "0 < sint (of_nat i :: 32 word)"
    using assms(3) by (simp add: sint_of_nat_small)
  have "a < 2 ^ 31" using assms by simp
  then show "rspq_check_syncpoint (of_nat i) (fst (sync_state_of (n, a))) \<longleftrightarrow> i \<le> a"
    using i by (intro sync_check_state_of) simp_all
  have "n < 2 ^ 32" "i < 2 ^ 32" using assms(2) i by simp_all
  then show "(of_nat i :: 32 word) \<in> set (sync_markers (fst (sync_state_of (n, a)))) \<longleftrightarrow> a < i"
    using assms(4) by (simp only: sync_state_of_simps sync_pending_iff) simp
qed

lemma sync_test_run_eval:
  "sync_run sync_test_run = (\<lparr>sync_counter = 3, sync_acked = 1, sync_markers = [2, 3]\<rparr>, [1, 2, 3])"
  "sync_run (take 2 sync_test_run) = (\<lparr>sync_counter = 2, sync_acked = 0, sync_markers = [1, 2]\<rparr>, [1, 2])"
  by (simp_all add: sync_test_run_def sync_run_def rspq_sync_init_def rspq_syncpoint_def
      rspq_consumer_marker_def Let_def)

text \<open>
  The handles below the maximum of the counter.  In every run in which fewer than
  \<open>2^31\<close> syncpoints have been created, the handles returned are strictly increasing
  and positive; and at every point of the run, for every handle returned by then,
  \<^verbatim>\<open>rspq_check_syncpoint\<close> is true exactly if the consumer has executed the handle's
  marker, and once true it is true at every later point.  (In such a run the
  comparison by signed difference and the plain comparison of the handle with the
  last-acknowledged counter agree.)  What the counter does at its maximum the spec
  leaves to the implementer (section 4.5), and the body of \<^verbatim>\<open>rspq_syncpoint\<close> is
  missing; nothing is stated here of the runs that reach it.
\<close>

lemma rspq_syncpoint_handles_in_range:
  assumes "length (filter (\<lambda>e. e = Create) evs) < 2 ^ 31"
  shows "(let s = fst (sync_run evs); hs = snd (sync_run evs) in
            length hs = length (filter (\<lambda>e. e = Create) evs)
          \<and> sorted_wrt (\<lambda>x y. sint x < sint y) hs
          \<and> (\<forall>h \<in> set hs. 0 < sint h)
          \<and> (\<forall>k \<le> length evs.
               let sk = fst (sync_run (take k evs)); hk = snd (sync_run (take k evs)) in
               \<forall>h \<in> set hk. h \<in> set hs
                 \<and> (rspq_check_syncpoint h sk \<longleftrightarrow> h \<notin> set (sync_markers sk))
                 \<and> (rspq_check_syncpoint h sk \<longrightarrow> rspq_check_syncpoint h s)
                 \<and> (rspq_check_syncpoint h sk \<longleftrightarrow> sint h \<le> sint (sync_acked sk))))"
proof -
  obtain n a where c: "sync_counts evs = (n, a)" by (cases "sync_counts evs")
  have run: "sync_run evs = sync_state_of (n, a)"
    by (simp add: sync_run_state_of c)
  have n: "n = length (filter (\<lambda>e. e = Create) evs)"
    using sync_counts_created [of evs] by (simp add: c)
  have n31: "n < 2 ^ 31" using assms n by simp
  have an: "a \<le> n" using sync_counts_le [of evs] by (simp add: c)
  have "length (snd (sync_run evs)) = n"
    unfolding run sync_state_of_simps by simp
  then have 1: "length (snd (sync_run evs)) = length (filter (\<lambda>e. e = Create) evs)"
    by (simp only: n)
  have 2: "sorted_wrt (\<lambda>x y. sint x < sint y) (snd (sync_run evs))"
    unfolding run by (rule sync_handles_sorted [OF n31])
  have 3: "\<forall>h \<in> set (snd (sync_run evs)). 0 < sint h"
  proof
    fix h assume "h \<in> set (snd (sync_run evs))"
    then obtain i where "h = of_nat i" "1 \<le> i" "i \<le> n"
      unfolding run by (rule sync_handle_cases)
    then show "0 < sint h"
      using sync_handle_facts(1) [OF an n31] by simp
  qed
  have 4: "h \<in> set (snd (sync_run evs))
         \<and> (rspq_check_syncpoint h (fst (sync_run (take k evs)))
              \<longleftrightarrow> h \<notin> set (sync_markers (fst (sync_run (take k evs)))))
         \<and> (rspq_check_syncpoint h (fst (sync_run (take k evs)))
              \<longrightarrow> rspq_check_syncpoint h (fst (sync_run evs)))
         \<and> (rspq_check_syncpoint h (fst (sync_run (take k evs)))
              \<longleftrightarrow> sint h \<le> sint (sync_acked (fst (sync_run (take k evs)))))"
    if h: "h \<in> set (snd (sync_run (take k evs)))" for k h
  proof -
    obtain nk ak where ck: "sync_counts (take k evs) = (nk, ak)"
      by (cases "sync_counts (take k evs)")
    have runk: "sync_run (take k evs) = sync_state_of (nk, ak)"
      by (simp add: sync_run_state_of ck)
    have le: "nk \<le> n" "ak \<le> a"
      using sync_counts_take [of k evs] by (simp_all add: c ck)
    have ank: "ak \<le> nk" using sync_counts_le [of "take k evs"] by (simp add: ck)
    have nk31: "nk < 2 ^ 31" using le n31 by simp
    from h obtain i where i: "h = of_nat i" "1 \<le> i" "i \<le> nk"
      unfolding runk by (rule sync_handle_cases)
    have "i \<le> n" using i le by simp
    then have "h \<in> set (map of_nat [1 ..< Suc n])"
      using i(1,2) unfolding set_map set_upt by auto
    then have a: "h \<in> set (snd (sync_run evs))"
      by (simp only: run sync_state_of_simps)
    have b: "rspq_check_syncpoint h (fst (sync_run (take k evs))) \<longleftrightarrow> i \<le> ak"
      unfolding runk i(1) by (rule sync_handle_facts(2) [OF ank nk31 i(2,3)])
    have c': "h \<in> set (sync_markers (fst (sync_run (take k evs)))) \<longleftrightarrow> ak < i"
      unfolding runk i(1) by (rule sync_handle_facts(3) [OF ank nk31 i(2,3)])
    have d: "rspq_check_syncpoint h (fst (sync_run evs)) \<longleftrightarrow> i \<le> a"
      unfolding run i(1) by (rule sync_handle_facts(2) [OF an n31 i(2) \<open>i \<le> n\<close>])
    have "i < 2 ^ 31" "ak < 2 ^ 31"
      using i(3) ank nk31 by simp_all
    then have e: "sint h \<le> sint (sync_acked (fst (sync_run (take k evs)))) \<longleftrightarrow> i \<le> ak"
      unfolding runk i(1) by (simp add: sync_state_of_simps sint_of_nat_small)
    show ?thesis
      using a b c' d e le by auto
  qed
  show ?thesis
    unfolding Let_def using 1 2 3 4 by blast
qed

lemma rspq_syncpoint_handles_in_range_instance:
  "snd (sync_run sync_test_run) = [1, 2, 3]
   \<and> sorted_wrt (\<lambda>x y. sint x < sint y) (snd (sync_run sync_test_run))
   \<and> \<not> rspq_check_syncpoint 1 (fst (sync_run (take 2 sync_test_run)))
   \<and> rspq_check_syncpoint 1 (fst (sync_run sync_test_run))
   \<and> \<not> rspq_check_syncpoint 2 (fst (sync_run sync_test_run))"
proof -
  have h: "length (filter (\<lambda>e. e = Create) sync_test_run) < 2 ^ 31"
    by (simp add: sync_test_run_def)
  note t = rspq_syncpoint_handles_in_range [OF h, unfolded Let_def]
  note at = t [THEN conjunct2, THEN conjunct2, THEN conjunct2, rule_format]
  have k2: "2 \<le> length sync_test_run" and k4: "4 \<le> length sync_test_run"
    by (simp_all add: sync_test_run_def)
  have t4: "take 4 sync_test_run = sync_test_run"
    by (simp add: sync_test_run_def)
  have in2: "1 \<in> set (snd (sync_run (take 2 sync_test_run)))"
    by (simp add: sync_test_run_eval)
  have in4: "1 \<in> set (snd (sync_run (take 4 sync_test_run)))"
    "2 \<in> set (snd (sync_run (take 4 sync_test_run)))"
    by (simp_all add: t4 sync_test_run_eval)
  have 1: "snd (sync_run sync_test_run) = [1, 2, 3]"
    by (simp add: sync_test_run_eval)
  have 2: "sorted_wrt (\<lambda>x y. sint x < sint y) (snd (sync_run sync_test_run))"
    by (rule t [THEN conjunct2, THEN conjunct1])
  have 3: "\<not> rspq_check_syncpoint 1 (fst (sync_run (take 2 sync_test_run)))"
    using at [OF k2 in2, THEN conjunct2, THEN conjunct1] by (simp add: sync_test_run_eval)
  have 4: "rspq_check_syncpoint 1 (fst (sync_run sync_test_run))"
    using at [OF k4 in4(1), THEN conjunct2, THEN conjunct1] by (simp add: t4 sync_test_run_eval)
  have 5: "\<not> rspq_check_syncpoint 2 (fst (sync_run sync_test_run))"
    using at [OF k4 in4(2), THEN conjunct2, THEN conjunct1] by (simp add: t4 sync_test_run_eval)
  show ?thesis
    using 1 2 3 4 5 by blast
qed

lemma sync_consumer_state_of:
  assumes "a \<le> n"
  shows "rspq_consumer_marker (fst (sync_state_of (n, a))) =
         fst (sync_state_of (n, if a < n then Suc a else a))"
  using sync_step_state_of [of "(n, a)" Consume] assms
  by (simp add: sync_state_of_def)

lemma sync_consumer_steps:
  assumes "a + j \<le> n"
  shows "(rspq_consumer_marker ^^ j) (fst (sync_state_of (n, a))) = fst (sync_state_of (n, a + j))"
  using assms
proof (induction j)
  case 0
  then show ?case by simp
next
  case (Suc j)
  then have "a + j < n" by simp
  then show ?case
    using Suc by (simp add: sync_consumer_state_of)
qed

lemma sync_pending_check:
  assumes "i < 2 ^ 31" "j \<le> Suc i" "Suc a + i \<le> n"
  shows "rspq_check_syncpoint (of_nat (Suc a + i)) (fst (sync_state_of (n, a + j))) \<longleftrightarrow> i < j"
proof -
  have "- (2 ^ 31) \<le> int (a + j) - int (Suc a + i)" "int (a + j) - int (Suc a + i) < 2 ^ 31"
    using assms by simp_all
  then have "rspq_check_syncpoint (of_nat (Suc a + i)) (fst (sync_state_of (n, a + j)))
      \<longleftrightarrow> Suc a + i \<le> a + j"
    by (rule sync_check_state_of)
  then show ?thesis by auto
qed

lemma sync_wait_pending:
  assumes "i < 2 ^ 31" "Suc a + i \<le> n" "j \<le> Suc i"
  shows "rspq_wait_syncpoint (of_nat (Suc a + i)) (fst (sync_state_of (n, a + j))) m =
         Some (fst (sync_state_of (n, a + Suc i)), m + (Suc i - j))"
  using assms(3)
proof (induction "Suc i - j" arbitrary: j m)
  case 0
  then have j: "j = Suc i" by simp
  have "rspq_check_syncpoint (of_nat (Suc a + i)) (fst (sync_state_of (n, a + j)))"
    using sync_pending_check [OF assms(1) _ assms(2), of j] j by simp
  then show ?case
    by (subst rspq_wait_syncpoint.simps) (simp add: j)
next
  case (Suc d)
  then have j: "j \<le> i" "a + j < n" "d = Suc i - Suc j" "Suc j \<le> Suc i"
    using assms(2) by simp_all
  have "\<not> rspq_check_syncpoint (of_nat (Suc a + i)) (fst (sync_state_of (n, a + j)))"
    using sync_pending_check [OF assms(1) _ assms(2), of j] j by simp
  moreover have "rspq_consumer_marker (fst (sync_state_of (n, a + j))) = fst (sync_state_of (n, a + Suc j))"
    using j by (simp add: sync_consumer_state_of)
  moreover have "rspq_wait_syncpoint (of_nat (Suc a + i)) (fst (sync_state_of (n, a + Suc j))) (Suc m) =
         Some (fst (sync_state_of (n, a + Suc i)), Suc m + (Suc i - Suc j))"
    by (rule Suc.hyps(1) [OF j(3) j(4)])
  ultimately show ?case
    using j by (subst rspq_wait_syncpoint.simps) simp
qed

text \<open>
  Claim C7.  If \<^verbatim>\<open>rspq_check_syncpoint\<close> is true of a handle, then
  \<^verbatim>\<open>rspq_wait_syncpoint\<close> on it returns at once, in the same state and having
  blocked for no wake signal.  For a syncpoint not yet reached, the \<open>i\<close>-th marker
  waiting in the stream, \<^verbatim>\<open>rspq_check_syncpoint\<close> is false now and after each of
  the next \<open>i\<close> markers the consumer executes, and true once the consumer has executed
  the marker itself; \<^verbatim>\<open>rspq_wait_syncpoint\<close> returns then, and not before.
  \<^verbatim>\<open>rspq_check_syncpoint\<close> is a comparison of two words: it has no loop and changes
  no state.  (This is for the first \<open>2^31\<close> markers that wait in the stream, which
  are all of them: the markers lie in the ring buffer, in a 32-bit address space.)
\<close>

theorem rspq_wait_syncpoint_reached:
  "(rspq_check_syncpoint h t \<longrightarrow> rspq_wait_syncpoint h t 0 = Some (t, 0))
   \<and> (let s = fst (sync_run evs) in
        \<forall>i < length (sync_markers s). i < 2 ^ 31 \<longrightarrow>
           (\<forall>j \<le> i. \<not> rspq_check_syncpoint (sync_markers s ! i) ((rspq_consumer_marker ^^ j) s))
         \<and> rspq_check_syncpoint (sync_markers s ! i) ((rspq_consumer_marker ^^ Suc i) s)
         \<and> rspq_wait_syncpoint (sync_markers s ! i) s 0
             = Some ((rspq_consumer_marker ^^ Suc i) s, Suc i))"
proof -
  have 1: "rspq_check_syncpoint h t \<longrightarrow> rspq_wait_syncpoint h t 0 = Some (t, 0)"
    by (subst rspq_wait_syncpoint.simps) simp
  obtain n a where c: "sync_counts evs = (n, a)" by (cases "sync_counts evs")
  let ?s = "fst (sync_state_of (n, a))"
  have run: "fst (sync_run evs) = ?s"
    by (simp add: sync_run_state_of c)
  have an: "a \<le> n" using sync_counts_le [of evs] by (simp add: c)
  have len: "length (sync_markers ?s) = n - a"
    unfolding sync_state_of_simps by (simp only: length_map length_upt diff_Suc_Suc)
  have 2: "(\<forall>j \<le> i. \<not> rspq_check_syncpoint (sync_markers ?s ! i) ((rspq_consumer_marker ^^ j) ?s))
         \<and> rspq_check_syncpoint (sync_markers ?s ! i) ((rspq_consumer_marker ^^ Suc i) ?s)
         \<and> rspq_wait_syncpoint (sync_markers ?s ! i) ?s 0
             = Some ((rspq_consumer_marker ^^ Suc i) ?s, Suc i)"
    if i: "i < length (sync_markers ?s)" and na: "i < 2 ^ 31" for i
  proof -
    have ia: "Suc a + i \<le> n" using i unfolding len by simp
    have "map of_nat [Suc a ..< Suc n] ! i = (of_nat ([Suc a ..< Suc n] ! i) :: 32 word)"
      using ia by (intro nth_map) simp
    moreover have "[Suc a ..< Suc n] ! i = Suc a + i"
      using ia by (intro nth_upt) simp
    ultimately have h: "sync_markers ?s ! i = of_nat (Suc a + i)"
      by (simp only: sync_state_of_simps)
    have steps: "(rspq_consumer_marker ^^ j) ?s = fst (sync_state_of (n, a + j))" if "j \<le> Suc i" for j
      using that ia by (intro sync_consumer_steps) simp
    have before: "\<forall>j \<le> i. \<not> rspq_check_syncpoint (sync_markers ?s ! i) ((rspq_consumer_marker ^^ j) ?s)"
    proof (intro allI impI)
      fix j assume j: "j \<le> i"
      then show "\<not> rspq_check_syncpoint (sync_markers ?s ! i) ((rspq_consumer_marker ^^ j) ?s)"
        using sync_pending_check [OF na _ ia, of j] steps [of j] by (simp add: h)
    qed
    have after: "rspq_check_syncpoint (sync_markers ?s ! i) ((rspq_consumer_marker ^^ Suc i) ?s)"
      using sync_pending_check [OF na _ ia, of "Suc i"] steps [of "Suc i"] by (simp add: h)
    have wait: "rspq_wait_syncpoint (sync_markers ?s ! i) ?s 0
             = Some ((rspq_consumer_marker ^^ Suc i) ?s, Suc i)"
      using sync_wait_pending [OF na ia, of 0 0] steps [of "Suc i"] by (simp add: h)
    show ?thesis
      using before after wait by blast
  qed
  show ?thesis
    unfolding Let_def run using 1 2 by blast
qed

theorem rspq_wait_syncpoint_reached_witness:
  "rspq_wait_syncpoint 1 (fst (sync_run sync_test_run)) 0 = Some (fst (sync_run sync_test_run), 0)
   \<and> \<not> rspq_check_syncpoint 3 (fst (sync_run sync_test_run))
   \<and> \<not> rspq_check_syncpoint 3 (rspq_consumer_marker (fst (sync_run sync_test_run)))
   \<and> rspq_check_syncpoint 3 (rspq_consumer_marker (rspq_consumer_marker (fst (sync_run sync_test_run))))
   \<and> rspq_wait_syncpoint 3 (fst (sync_run sync_test_run)) 0
        = Some (\<lparr>sync_counter = 3, sync_acked = 3, sync_markers = []\<rparr>, 2)"
proof -
  let ?s = "fst (sync_run sync_test_run)"
  note t = rspq_wait_syncpoint_reached [of 1 ?s sync_test_run, unfolded Let_def]
  have chk: "rspq_check_syncpoint 1 ?s"
    by (simp add: sync_test_run_eval rspq_check_syncpoint_def)
  have 1: "rspq_wait_syncpoint 1 ?s 0 = Some (?s, 0)"
    using t [THEN conjunct1] chk by simp
  have m: "sync_markers ?s = [2, 3]"
    by (simp add: sync_test_run_eval)
  have i: "Suc 0 < length (sync_markers ?s)" and small: "Suc 0 < 2 ^ 31"
    by (simp_all add: m)
  note p = t [THEN conjunct2, rule_format, OF i small]
  have h: "sync_markers ?s ! Suc 0 = 3"
    by (simp add: m)
  have steps: "(rspq_consumer_marker ^^ Suc (Suc 0)) ?s = \<lparr>sync_counter = 3, sync_acked = 3, sync_markers = []\<rparr>"
    "(rspq_consumer_marker ^^ Suc (Suc 0)) ?s = rspq_consumer_marker (rspq_consumer_marker ?s)"
    by (simp_all add: sync_test_run_eval rspq_consumer_marker_def)
  have 2: "\<not> rspq_check_syncpoint 3 ?s"
    using p [THEN conjunct1, rule_format, of 0] by (simp add: h)
  have 3: "\<not> rspq_check_syncpoint 3 (rspq_consumer_marker ?s)"
    using p [THEN conjunct1, rule_format, of "Suc 0"] by (simp add: h)
  have 4: "rspq_check_syncpoint 3 (rspq_consumer_marker (rspq_consumer_marker ?s))"
    using p [THEN conjunct2, THEN conjunct1] by (simp only: h steps(2))
  have 5: "rspq_wait_syncpoint 3 ?s 0 = Some (\<lparr>sync_counter = 3, sync_acked = 3, sync_markers = []\<rparr>, 2)"
    using p [THEN conjunct2, THEN conjunct2] by (simp only: h steps(1)) simp
  show ?thesis
    using 1 2 3 4 5 by blast
qed


section \<open>Recording a block\<close>

lemma rspq_in_block_iff:
  "rspq_in_block b a \<longleftrightarrow> (\<exists>c \<in> set (block_chunks b). rspq_in_chunk c a)"
  by (simp add: rspq_in_block_def list_ex_iff)

lemma rspq_fresh_not_live:
  "rspq_chunk_fresh s0 c \<Longrightarrow> rspq_in_chunk c a \<Longrightarrow> \<not> rspq_in_live s0 a"
  by (auto simp: rspq_chunk_fresh_def rspq_in_chunk_def rspq_in_live_def)

lemma rspq_next_buffer_block_idle:
  "rspq_block s = None \<Longrightarrow>
     rspq_write (rspq_next_buffer_block jump alloc) cmd_id args s
       = rspq_write (rspq_next_buffer jump) cmd_id args s"
  by (simp add: rspq_write_eq_epilog rspq_write_epilog_def rspq_next_buffer_block_def
        rspq_write_stored_eq)

lemma rspq_block_begin_recording:
  assumes "rspq_block_begin alloc s0 = Inr s" and "rspq_chunk_fresh s0 (alloc s0)"
  shows "rspq_recording s0 s" and "rspq_block s0 = None"
  using assms
  by (auto simp: rspq_block_begin_def rspq_recording_def rspq_chunk_fresh_def Let_def
                 RSPQ_MAX_COMMAND_SIZE_def split: if_splits)

lemma rspq_flush_recording: "rspq_recording s0 s \<Longrightarrow> rspq_flush s = s"
  by (auto simp: rspq_recording_def rspq_flush_def split: option.splits)

lemma rspq_write_recording:
  assumes inv: "rspq_recording s0 s"
    and fresh: "\<forall>t. rspq_chunk_fresh s0 (alloc t)"
    and small: "length (rspq_cmd_words cmd_id args) \<le> RSPQ_MAX_COMMAND_SIZE"
  shows "rspq_recording s0 (rspq_write (rspq_next_buffer_block jump alloc) cmd_id args s)"
proof -
  let ?ws = "rspq_cmd_words cmd_id args"
  let ?st = "rspq_write_stored cmd_id args s"
  obtain b where b: "rspq_block s = Some b"
    using inv by (auto simp: rspq_recording_def split: option.splits)
  let ?l = "last (block_chunks b)"
  have i: "block_chunks b \<noteq> []" "fst ?l \<le> rspq_cur_pointer s"
      "rspq_cur_pointer s \<le> rspq_cur_sentinel s"
      "rspq_cur_sentinel s + RSPQ_MAX_COMMAND_SIZE + 1 \<le> fst ?l + snd ?l"
      "\<forall>c \<in> set (block_chunks b). rspq_chunk_fresh s0 c"
      "\<forall>a. rdram s a \<noteq> rdram s0 a \<longrightarrow> rspq_in_block b a"
      "rspq_buffers s = rspq_buffers s0" "rspq_buf_size s = rspq_buf_size s0"
      "rspq_buf_idx s = rspq_buf_idx s0"
      "rspq_saved s = (rspq_cur_pointer s0, rspq_cur_sentinel s0)"
      "rspq_highpri_open s = rspq_highpri_open s0"
      "rspq_consumer_idle s = rspq_consumer_idle s0"
    using inv b by (simp_all add: rspq_recording_def)
  have st: "?st = s\<lparr>rdram := store_words (rspq_cur_pointer s) ?ws (rdram s),
                    rspq_cur_pointer := rspq_cur_pointer s + length ?ws\<rparr>"
    by (rule rspq_write_stored_eq)
  have lin: "?l \<in> set (block_chunks b)" using i(1) by simp
  have stored: "rspq_in_block b a" if "rdram ?st a \<noteq> rdram s0 a" for a
  proof (cases "rspq_cur_pointer s \<le> a \<and> a < rspq_cur_pointer s + length ?ws")
    case True
    then have "rspq_in_chunk ?l a"
      using i(2,3,4) small by (simp add: rspq_in_chunk_def)
    then show ?thesis using lin rspq_in_block_iff by blast
  next
    case False
    then have "rdram ?st a = rdram s a"
      by (auto simp: st store_words_def)
    then show ?thesis using that i(6) by simp
  qed
  show ?thesis
  proof (cases "rspq_cur_pointer ?st > rspq_cur_sentinel ?st")
    case False
    then have eq: "rspq_write (rspq_next_buffer_block jump alloc) cmd_id args s = ?st"
      by (simp add: rspq_write_eq_epilog rspq_write_epilog_def)
    have le: "rspq_cur_pointer s + length ?ws \<le> rspq_cur_sentinel s"
      using False by (simp add: st)
    have "rspq_recording s0 ?st"
      unfolding rspq_recording_def
      using stored i b le by (simp add: st)
    then show ?thesis by (simp only: eq)
  next
    case True
    let ?c = "alloc ?st"
    let ?b' = "b\<lparr>block_chunks := block_chunks b @ [?c]\<rparr>"
    let ?s' = "?st\<lparr>rdram := (rdram ?st)(rspq_cur_pointer ?st := jump (fst ?c)),
                  rspq_cur_pointer := fst ?c,
                  rspq_cur_sentinel := fst ?c + snd ?c - (RSPQ_MAX_COMMAND_SIZE + 1),
                  rspq_block := Some ?b'\<rparr>"
    have bst: "rspq_block ?st = Some b" by (simp add: st b)
    have eq: "rspq_write (rspq_next_buffer_block jump alloc) cmd_id args s = ?s'"
      using True bst
      by (simp add: rspq_write_eq_epilog rspq_write_epilog_def rspq_next_buffer_block_def Let_def)
    have fc: "rspq_chunk_fresh s0 ?c" using fresh by blast
    then have sz: "RSPQ_MAX_COMMAND_SIZE + 1 \<le> snd ?c"
      by (simp add: rspq_chunk_fresh_def)
    have mono: "rspq_in_block ?b' a" if "rspq_in_block b a" for a
      using that by (auto simp: rspq_in_block_iff)
    have jmp: "rspq_in_chunk ?l (rspq_cur_pointer ?st)"
      using i(2,3,4) small by (simp add: st rspq_in_chunk_def)
    have ch: "rspq_in_block ?b' a" if "rdram ?s' a \<noteq> rdram s0 a" for a
    proof (cases "a = rspq_cur_pointer ?st")
      case True
      then have "rspq_in_block b a" using jmp lin rspq_in_block_iff by blast
      then show ?thesis by (rule mono)
    next
      case False
      then have "rdram ?s' a = rdram ?st a" by simp
      then show ?thesis using that stored mono by simp
    qed
    have "rspq_recording s0 ?s'"
      unfolding rspq_recording_def
      using ch i fc sz by (simp add: st)
    then show ?thesis by (simp only: eq)
  qed
qed

lemma rspq_run_calls_Nil: "rspq_run_calls jump alloc [] s = s"
  by (simp add: rspq_run_calls_def)

lemma rspq_run_calls_Cons:
  "rspq_run_calls jump alloc (c # cs) s = rspq_run_calls jump alloc cs (rspq_run_call jump alloc c s)"
  by (simp add: rspq_run_calls_def)

lemma rspq_run_call_recording:
  assumes "rspq_recording s0 s" and "\<forall>t. rspq_chunk_fresh s0 (alloc t)"
    and "rspq_call_in_contract c"
  shows "rspq_recording s0 (rspq_run_call jump alloc c s)"
proof (cases c)
  case (Call_write cmd_id args)
  then show ?thesis using assms by (simp add: rspq_write_recording)
next
  case Call_flush
  then show ?thesis using assms(1) by (simp add: rspq_flush_recording)
qed

lemma rspq_run_calls_recording:
  assumes "rspq_recording s0 s" and "\<forall>t. rspq_chunk_fresh s0 (alloc t)"
    and "\<forall>c \<in> set cs. rspq_call_in_contract c"
  shows "rspq_recording s0 (rspq_run_calls jump alloc cs s)"
  using assms
proof (induction cs arbitrary: s)
  case Nil
  then show ?case by (simp add: rspq_run_calls_Nil)
next
  case (Cons c cs)
  have "rspq_recording s0 (rspq_run_call jump alloc c s)"
    using Cons.prems by (simp add: rspq_run_call_recording)
  then show ?case using Cons by (simp add: rspq_run_calls_Cons)
qed

lemma rspq_run_calls_without_flush:
  assumes "rspq_recording s0 s" and "\<forall>t. rspq_chunk_fresh s0 (alloc t)"
    and "\<forall>c \<in> set cs. rspq_call_in_contract c"
  shows "rspq_run_calls jump alloc (filter rspq_is_write cs) s = rspq_run_calls jump alloc cs s"
  using assms
proof (induction cs arbitrary: s)
  case Nil
  then show ?case by simp
next
  case (Cons c cs)
  have r: "rspq_recording s0 (rspq_run_call jump alloc c s)"
    using Cons.prems by (simp add: rspq_run_call_recording)
  show ?case
  proof (cases c)
    case (Call_write cmd_id args)
    then show ?thesis using Cons r by (simp add: rspq_run_calls_Cons)
  next
    case Call_flush
    then show ?thesis using Cons by (simp add: rspq_run_calls_Cons rspq_flush_recording)
  qed
qed


lemma rspq_write_block_words:
  "map (rdram (rspq_write (rspq_next_buffer_block jump alloc) cmd_id args s))
       [rspq_cur_pointer s ..< rspq_cur_pointer s + length (rspq_cmd_words cmd_id args)]
     = rspq_cmd_words cmd_id args"
proof -
  let ?ws = "rspq_cmd_words cmd_id args"
  let ?p = "rspq_cur_pointer s"
  let ?st = "rspq_write_stored cmd_id args s"
  let ?t = "rspq_write (rspq_next_buffer_block jump alloc) cmd_id args s"
  have st: "?st = s\<lparr>rdram := store_words ?p ?ws (rdram s), rspq_cur_pointer := ?p + length ?ws\<rparr>"
    by (rule rspq_write_stored_eq)
  have "rdram ?t a = store_words ?p ?ws (rdram s) a" if "a < ?p + length ?ws" for a
    using that
    by (auto simp: rspq_write_eq_epilog rspq_write_epilog_def rspq_next_buffer_block_def
                   rspq_next_buffer_def Let_def st split: option.splits)
  then have "map (rdram ?t) [?p ..< ?p + length ?ws]
               = map (store_words ?p ?ws (rdram s)) [?p ..< ?p + length ?ws]"
    by simp
  then show ?thesis by (simp only: map_store_words)
qed

lemma rspq_test_block_begin:
  "rspq_block_begin rspq_test_alloc (rspq_test_ctx 100 496) = Inr rspq_test_recording"
  by (simp add: rspq_block_begin_def rspq_test_ctx_def rspq_test_recording_def rspq_test_alloc_def
      RSPQ_MAX_COMMAND_SIZE_def Let_def)

lemma rspq_test_alloc_fresh: "\<forall>t. rspq_chunk_fresh (rspq_test_ctx 100 496) (rspq_test_alloc t)"
  by (simp add: rspq_chunk_fresh_def rspq_test_ctx_def rspq_test_alloc_def RSPQ_MAX_COMMAND_SIZE_def
           split: option.splits)

lemma rspq_test_calls_in_contract: "\<forall>c \<in> set rspq_test_calls. rspq_call_in_contract c"
  by (simp add: rspq_test_calls_def rspq_cmd_words_def RSPQ_MAX_COMMAND_SIZE_def)

lemma rspq_test_calls_eval:
  "rspq_block (rspq_run_calls rspq_test_jump rspq_test_alloc rspq_test_calls rspq_test_recording)
     = Some \<lparr>block_chunks = [(2000, 32), (2032, 32)]\<rparr>"
  "rspq_cur_pointer (rspq_run_calls rspq_test_jump rspq_test_alloc rspq_test_calls rspq_test_recording)
     = 2033"
  "map (rdram (rspq_run_calls rspq_test_jump rspq_test_alloc rspq_test_calls rspq_test_recording))
       [2000, 2001, 2002, 2003, 2015, 2016, 2032]
     = [0x12000001, 2, 0x34000000, 0x56000001, 13, 0x020007F0, 0x78000005]"
  by (simp_all add: rspq_run_calls_def rspq_write_eq_epilog rspq_write_stored_eq
        rspq_write_epilog_def rspq_next_buffer_block_def rspq_cmd_words_def store_words_def
        rspq_test_calls_def rspq_test_recording_def rspq_test_alloc_def rspq_test_jump_def
        rspq_flush_def Let_def RSPQ_MAX_COMMAND_SIZE_def)

text \<open>
  Claim C6.  Let a block be begun with \<^verbatim>\<open>rspq_block_begin\<close>, the chunks of its
  private buffer sharing no word with the live ring buffer, and let any sequence of
  writes (of commands within the maximum size) and of calls of \<^verbatim>\<open>rspq_flush\<close>
  follow.  Then a block is still being recorded; every word of memory that differs
  from when the block was begun lies in the block's private buffer, which shares no
  word with the live ring buffer, so that no word of the live ring buffer has
  changed; the cursor and the words that a further command and its jump may take lie
  in the private buffer, and a further write stores the words of its command there,
  from the cursor on.  \<^verbatim>\<open>rspq_flush\<close> returns the state it is given, there and in
  every state in which a block is being recorded, and the sequence of calls ends in
  the same state as the sequence without its flushes; before the block was begun,
  \<^verbatim>\<open>rspq_flush\<close> would have woken the consumer.  At
  \<^verbatim>\<open>rspq_block_end\<close> the engine is in the state in which the block was begun, but
  for the memory of the private buffer and the cursor kept aside: the ring buffers,
  the cursor, the sentinel and what the consumer sees are unchanged.
\<close>

theorem rspq_block_recording:
  assumes rec: "rspq_block_begin alloc s0 = Inr s"
    and fresh: "\<forall>t. rspq_chunk_fresh s0 (alloc t)"
    and small: "\<forall>c \<in> set calls. rspq_call_in_contract c"
  shows "let s' = rspq_run_calls jump alloc calls s in
           (\<exists>b. rspq_block s' = Some b
               \<and> (\<forall>a. rdram s' a \<noteq> rdram s0 a \<longrightarrow> rspq_in_block b a)
               \<and> (\<forall>a. rspq_in_block b a \<longrightarrow> \<not> rspq_in_live s0 a)
               \<and> (\<forall>a. rspq_cur_pointer s' \<le> a \<and> a \<le> rspq_cur_pointer s' + RSPQ_MAX_COMMAND_SIZE
                      \<longrightarrow> rspq_in_block b a)
               \<and> rspq_block_end s'
                   = Inr (b, s0\<lparr>rdram := rdram s',
                                rspq_saved := (rspq_cur_pointer s0, rspq_cur_sentinel s0)\<rparr>))
         \<and> (\<forall>cmd_id args.
               map (rdram (rspq_run_call jump alloc (Call_write cmd_id args) s'))
                   [rspq_cur_pointer s' ..< rspq_cur_pointer s' + length (rspq_cmd_words cmd_id args)]
                 = rspq_cmd_words cmd_id args)
         \<and> (\<forall>a. rspq_in_live s0 a \<longrightarrow> rdram s' a = rdram s0 a)
         \<and> rspq_flush s' = s'
         \<and> rspq_run_calls jump alloc (filter rspq_is_write calls) s = s'
         \<and> rspq_flush s0 = s0\<lparr>rspq_consumer_idle := False\<rparr>
         \<and> (\<forall>t. rspq_block t \<noteq> None \<longrightarrow> rspq_flush t = t)"
proof -
  let ?s' = "rspq_run_calls jump alloc calls s"
  have f0: "rspq_chunk_fresh s0 (alloc s0)" using fresh by blast
  note b0 = rspq_block_begin_recording [OF rec f0]
  have inv: "rspq_recording s0 ?s'"
    using b0(1) fresh small by (rule rspq_run_calls_recording)
  obtain b where b: "rspq_block ?s' = Some b"
    using inv by (auto simp: rspq_recording_def split: option.splits)
  let ?l = "last (block_chunks b)"
  have i: "block_chunks b \<noteq> []" "fst ?l \<le> rspq_cur_pointer ?s'"
      "rspq_cur_pointer ?s' \<le> rspq_cur_sentinel ?s'"
      "rspq_cur_sentinel ?s' + RSPQ_MAX_COMMAND_SIZE + 1 \<le> fst ?l + snd ?l"
      "\<forall>c \<in> set (block_chunks b). rspq_chunk_fresh s0 c"
      "\<forall>a. rdram ?s' a \<noteq> rdram s0 a \<longrightarrow> rspq_in_block b a"
      "rspq_buffers ?s' = rspq_buffers s0" "rspq_buf_size ?s' = rspq_buf_size s0"
      "rspq_buf_idx ?s' = rspq_buf_idx s0"
      "rspq_saved ?s' = (rspq_cur_pointer s0, rspq_cur_sentinel s0)"
      "rspq_highpri_open ?s' = rspq_highpri_open s0"
      "rspq_consumer_idle ?s' = rspq_consumer_idle s0"
    using inv b by (simp_all add: rspq_recording_def)
  have 1: "\<forall>a. rspq_in_block b a \<longrightarrow> \<not> rspq_in_live s0 a"
    using i(5) rspq_fresh_not_live by (auto simp: rspq_in_block_iff)
  have 2: "\<forall>a. rspq_cur_pointer ?s' \<le> a \<and> a \<le> rspq_cur_pointer ?s' + RSPQ_MAX_COMMAND_SIZE
              \<longrightarrow> rspq_in_block b a"
  proof (intro allI impI)
    fix a
    assume "rspq_cur_pointer ?s' \<le> a \<and> a \<le> rspq_cur_pointer ?s' + RSPQ_MAX_COMMAND_SIZE"
    then have "rspq_in_chunk ?l a"
      using i(2,3,4) by (simp add: rspq_in_chunk_def)
    moreover have "?l \<in> set (block_chunks b)" using i(1) by simp
    ultimately show "rspq_in_block b a" using rspq_in_block_iff by blast
  qed
  have 3: "rspq_block_end ?s'
             = Inr (b, s0\<lparr>rdram := rdram ?s',
                          rspq_saved := (rspq_cur_pointer s0, rspq_cur_sentinel s0)\<rparr>)"
  proof -
    have "?s'\<lparr>rspq_block := None, rspq_cur_pointer := fst (rspq_saved ?s'),
              rspq_cur_sentinel := snd (rspq_saved ?s')\<rparr>
            = s0\<lparr>rdram := rdram ?s', rspq_saved := (rspq_cur_pointer s0, rspq_cur_sentinel s0)\<rparr>"
      by (rule rspq_ctx.equality) (simp_all add: i b0(2))
    then show ?thesis by (simp add: rspq_block_end_def b)
  qed
  have 4: "\<forall>cmd_id args.
             map (rdram (rspq_run_call jump alloc (Call_write cmd_id args) ?s'))
                 [rspq_cur_pointer ?s' ..< rspq_cur_pointer ?s' + length (rspq_cmd_words cmd_id args)]
               = rspq_cmd_words cmd_id args"
    by (simp add: rspq_write_block_words)
  have 5: "\<forall>a. rspq_in_live s0 a \<longrightarrow> rdram ?s' a = rdram s0 a"
    using i(6) 1 by blast
  have 6: "rspq_flush ?s' = ?s'"
    using inv by (rule rspq_flush_recording)
  have 7: "rspq_run_calls jump alloc (filter rspq_is_write calls) s = ?s'"
    using b0(1) fresh small by (rule rspq_run_calls_without_flush)
  have 8: "rspq_flush s0 = s0\<lparr>rspq_consumer_idle := False\<rparr>"
    by (simp add: rspq_flush_def b0(2))
  have 9: "\<forall>t. rspq_block t \<noteq> None \<longrightarrow> rspq_flush t = t"
    by (simp add: rspq_flush_def)
  show ?thesis
    unfolding Let_def using b i(6) 1 2 3 4 5 6 7 8 9 by blast
qed


theorem rspq_block_recording_witness:
  "rspq_block_begin rspq_test_alloc (rspq_test_ctx 100 496) = Inr rspq_test_recording
   \<and> rspq_chunk_fresh (rspq_test_ctx 100 496) (rspq_test_alloc rspq_test_recording)
   \<and> rspq_block (rspq_run_calls rspq_test_jump rspq_test_alloc rspq_test_calls rspq_test_recording)
       = Some \<lparr>block_chunks = [(2000, 32), (2032, 32)]\<rparr>
   \<and> map (rdram (rspq_run_calls rspq_test_jump rspq_test_alloc rspq_test_calls rspq_test_recording))
          [2000, 2001, 2002, 2003, 2015, 2016, 2032]
       = [0x12000001, 2, 0x34000000, 0x56000001, 13, 0x020007F0, 0x78000005]
   \<and> rdram (rspq_run_calls rspq_test_jump rspq_test_alloc rspq_test_calls rspq_test_recording) 512 = 0
   \<and> rspq_flush (rspq_run_calls rspq_test_jump rspq_test_alloc rspq_test_calls rspq_test_recording)
       = rspq_run_calls rspq_test_jump rspq_test_alloc rspq_test_calls rspq_test_recording
   \<and> rspq_run_calls rspq_test_jump rspq_test_alloc (filter rspq_is_write rspq_test_calls)
         rspq_test_recording
       = rspq_run_calls rspq_test_jump rspq_test_alloc rspq_test_calls rspq_test_recording
   \<and> \<not> rspq_consumer_idle (rspq_flush (rspq_test_ctx 100 496))"
proof -
  let ?s' = "rspq_run_calls rspq_test_jump rspq_test_alloc rspq_test_calls rspq_test_recording"
  note t = rspq_block_recording [OF rspq_test_block_begin rspq_test_alloc_fresh
      rspq_test_calls_in_contract, of rspq_test_jump, unfolded Let_def,
      THEN conjunct2, THEN conjunct2]
  have live: "rspq_in_live (rspq_test_ctx 100 496) 512"
    by (simp add: rspq_in_live_def rspq_in_chunk_def rspq_test_ctx_def)
  have 1: "rdram ?s' 512 = 0"
    using t [THEN conjunct1, rule_format, OF live] by (simp add: rspq_test_ctx_def)
  have 2: "rspq_flush ?s' = ?s'"
    by (rule t [THEN conjunct2, THEN conjunct1])
  have 3: "rspq_run_calls rspq_test_jump rspq_test_alloc (filter rspq_is_write rspq_test_calls)
             rspq_test_recording = ?s'"
    by (rule t [THEN conjunct2, THEN conjunct2, THEN conjunct1])
  have 4: "\<not> rspq_consumer_idle (rspq_flush (rspq_test_ctx 100 496))"
    using t [THEN conjunct2, THEN conjunct2, THEN conjunct2, THEN conjunct1] by simp
  show ?thesis
    using rspq_test_block_begin rspq_test_alloc_fresh rspq_test_calls_eval(1,3) 1 2 3 4 by blast
qed


section \<open>The high-priority channel\<close>

lemma seen_highpri_append: "seen_highpri (xs @ ys) = seen_highpri xs @ seen_highpri ys"
  by (induction xs rule: seen_highpri.induct) simp_all

lemma seen_normal_append: "seen_normal (xs @ ys) = seen_normal xs @ seen_normal ys"
  by (induction xs rule: seen_normal.induct) simp_all

lemma rspq_prio_from_Nil: "rspq_prio_from s [] = s"
  by (simp add: rspq_prio_from_def)

lemma rspq_prio_from_Cons: "rspq_prio_from s (e # evs) = rspq_prio_from (rspq_prio_step e s) evs"
  by (simp add: rspq_prio_from_def)

lemma rspq_prio_from_append:
  "rspq_prio_from s (evs @ evs') = rspq_prio_from (rspq_prio_from s evs) evs'"
  by (simp add: rspq_prio_from_def)

lemma rspq_prio_from_snoc:
  "rspq_prio_from s (evs @ [e]) = rspq_prio_step e (rspq_prio_from s evs)"
  by (simp add: rspq_prio_from_def)

lemma highpri_stream_step:
  "highpri_stream (rspq_prio_step e s) =
     highpri_stream s @ (case e of Write c \<Rightarrow> if prio_open s then [c] else [] | _ \<Rightarrow> [])"
  by (cases e)
     (auto simp: highpri_stream_def rspq_highpri_begin_def rspq_highpri_end_def rspq_prio_write_def
                 rspq_consumer_fetch_def rspq_consumer_finish_def seen_highpri_append
           split: list.splits)

lemma normal_stream_step:
  "normal_stream (rspq_prio_step e s) =
     normal_stream s @ (case e of Write c \<Rightarrow> if prio_open s then [] else [c] | _ \<Rightarrow> [])"
  by (cases e)
     (auto simp: normal_stream_def rspq_highpri_begin_def rspq_highpri_end_def rspq_prio_write_def
                 rspq_consumer_fetch_def rspq_consumer_finish_def seen_normal_append
           split: list.splits)

lemma highpri_stream_from:
  "\<exists>ws. highpri_stream (rspq_prio_from s evs) = highpri_stream s @ ws"
proof (induction evs arbitrary: s)
  case Nil
  show ?case by (simp add: rspq_prio_from_Nil)
next
  case (Cons e evs)
  obtain ws where "highpri_stream (rspq_prio_from (rspq_prio_step e s) evs)
                     = highpri_stream (rspq_prio_step e s) @ ws"
    using Cons.IH by blast
  then show ?case
    by (simp add: rspq_prio_from_Cons highpri_stream_step)
qed

lemma normal_stream_from:
  "\<exists>ws. normal_stream (rspq_prio_from s evs) = normal_stream s @ ws"
proof (induction evs arbitrary: s)
  case Nil
  show ?case by (simp add: rspq_prio_from_Nil)
next
  case (Cons e evs)
  obtain ws where "normal_stream (rspq_prio_from (rspq_prio_step e s) evs)
                     = normal_stream (rspq_prio_step e s) @ ws"
    using Cons.IH by blast
  then show ?case
    by (simp add: rspq_prio_from_Cons normal_stream_step)
qed

lemma prio_open_step:
  "prio_open (rspq_prio_step e s) =
     (case e of Highpri_begin \<Rightarrow> True | Highpri_end \<Rightarrow> False | _ \<Rightarrow> prio_open s)"
  by (cases e)
     (auto simp: rspq_highpri_begin_def rspq_highpri_end_def rspq_prio_write_def
                 rspq_consumer_fetch_def rspq_consumer_finish_def split: list.splits)

lemma rspq_segment_streams:
  assumes "prio_open s" and "Highpri_end \<notin> set seg"
  shows "prio_open (rspq_prio_from s seg)
       \<and> highpri_stream (rspq_prio_from s seg) = highpri_stream s @ writes_of seg
       \<and> normal_stream (rspq_prio_from s seg) = normal_stream s"
  using assms
proof (induction seg arbitrary: s)
  case Nil
  then show ?case by (simp add: rspq_prio_from_Nil)
next
  case (Cons e seg)
  have o: "prio_open (rspq_prio_step e s)"
    using Cons.prems prio_open_step [of e s] by (cases e) simp_all
  have n: "Highpri_end \<notin> set seg" using Cons.prems by simp
  note ih = Cons.IH [OF o n]
  show ?case
    using ih Cons.prems highpri_stream_step [of e s] normal_stream_step [of e s]
    by (cases e) (simp_all add: rspq_prio_from_Cons)
qed

lemma seen_step:
  "prio_seen (rspq_prio_step e s) = prio_seen s
   \<or> (\<exists>c. prio_seen (rspq_prio_step e s) = prio_seen s @ [Seen_highpri c])
   \<or> (\<exists>c. prio_seen (rspq_prio_step e s) = prio_seen s @ [Seen_normal c]
          \<and> prio_highpri s = [] \<and> \<not> prio_open s \<and> prio_current s = None)"
  by (cases e)
     (auto simp: rspq_highpri_begin_def rspq_highpri_end_def rspq_prio_write_def
                 rspq_consumer_fetch_def rspq_consumer_finish_def split: list.splits)

lemma highpri_first_step:
  assumes inv: "highpri_first L H s" and h: "H \<le> length (highpri_stream s)"
  shows "highpri_first L H (rspq_prio_step e s)"
proof -
  let ?s' = "rspq_prio_step e s"
  consider (same) "prio_seen ?s' = prio_seen s"
    | (hi) c where "prio_seen ?s' = prio_seen s @ [Seen_highpri c]"
    | (lo) c where "prio_seen ?s' = prio_seen s @ [Seen_normal c]" "prio_highpri s = []"
    using seen_step [of e s] by blast
  then show ?thesis
  proof cases
    case same
    then show ?thesis using inv by (simp add: highpri_first_def)
  next
    case hi
    show ?thesis
      unfolding highpri_first_def hi
    proof (intro allI impI)
      fix p
      assume p: "p < length (prio_seen s @ [Seen_highpri c])"
        and a: "is_seen_normal ((prio_seen s @ [Seen_highpri c]) ! p)
              \<and> L \<le> length (seen_normal (take p (prio_seen s @ [Seen_highpri c])))"
      have "p \<noteq> length (prio_seen s)" using a by auto
      then have pl: "p < length (prio_seen s)" using p by simp
      then show "H \<le> length (seen_highpri (take p (prio_seen s @ [Seen_highpri c])))"
        using inv a by (simp add: highpri_first_def nth_append)
    qed
  next
    case lo
    show ?thesis
      unfolding highpri_first_def lo(1)
    proof (intro allI impI)
      fix p
      assume p: "p < length (prio_seen s @ [Seen_normal c])"
        and a: "is_seen_normal ((prio_seen s @ [Seen_normal c]) ! p)
              \<and> L \<le> length (seen_normal (take p (prio_seen s @ [Seen_normal c])))"
      show "H \<le> length (seen_highpri (take p (prio_seen s @ [Seen_normal c])))"
      proof (cases "p < length (prio_seen s)")
        case True
        then show ?thesis using inv a by (simp add: highpri_first_def nth_append)
      next
        case False
        then have "p = length (prio_seen s)" using p by simp
        then show ?thesis using h lo(2) by (simp add: highpri_stream_def)
      qed
    qed
  qed
qed

lemma highpri_first_from:
  assumes "highpri_first L H s" and "H \<le> length (highpri_stream s)"
  shows "highpri_first L H (rspq_prio_from s evs)"
  using assms
proof (induction evs arbitrary: s)
  case Nil
  then show ?case by (simp add: rspq_prio_from_Nil)
next
  case (Cons e evs)
  have 1: "highpri_first L H (rspq_prio_step e s)"
    using Cons.prems by (rule highpri_first_step)
  have 2: "H \<le> length (highpri_stream (rspq_prio_step e s))"
    using Cons.prems(2) by (simp add: highpri_stream_step)
  show ?case using Cons.IH [OF 1 2] by (simp add: rspq_prio_from_Cons)
qed

lemma seen_normal_take_less:
  assumes "p < length xs" and "is_seen_normal (xs ! p)"
  shows "length (seen_normal (take p xs)) < length (seen_normal xs)"
proof -
  have "xs = take p xs @ xs ! p # drop (Suc p) xs"
    using assms(1) by (simp add: id_take_nth_drop)
  then have "seen_normal xs = seen_normal (take p xs) @ seen_normal (xs ! p # drop (Suc p) xs)"
    by (metis seen_normal_append)
  moreover obtain c where "xs ! p = Seen_normal c"
    using assms(2) by (cases "xs ! p") simp_all
  ultimately show ?thesis by simp
qed

lemma highpri_first_init:
  assumes "L = length (normal_stream s)"
  shows "highpri_first L H s"
  unfolding highpri_first_def
proof (intro allI impI)
  fix p
  assume p: "p < length (prio_seen s)"
    and a: "is_seen_normal (prio_seen s ! p) \<and> L \<le> length (seen_normal (take p (prio_seen s)))"
  have "length (seen_normal (take p (prio_seen s))) < length (seen_normal (prio_seen s))"
    using p a by (simp add: seen_normal_take_less)
  also have "\<dots> \<le> L" using assms by (simp add: normal_stream_def)
  finally show "H \<le> length (seen_highpri (take p (prio_seen s)))" using a by simp
qed

lemma seen_highpri_take_prefix:
  "\<exists>ws. seen_highpri xs = seen_highpri (take p xs) @ ws"
  by (metis append_take_drop_id seen_highpri_append)


lemma rspq_prio_run_snoc: "rspq_prio_run (evs @ [e]) = rspq_prio_step e (rspq_prio_run evs)"
  by (simp add: rspq_prio_run_def rspq_prio_from_snoc)

lemma rspq_prio_run_append:
  "rspq_prio_run (evs @ evs') = rspq_prio_from (rspq_prio_run evs) evs'"
  by (simp add: rspq_prio_run_def rspq_prio_from_append)

lemma rspq_prio_test_seen:
  "prio_seen (rspq_prio_run (rspq_prio_test_pre @ Highpri_begin # rspq_prio_test_seg
                               @ Highpri_end # rspq_prio_test_post))
     = [Seen_normal ''A'', Seen_highpri ''X'', Seen_highpri ''Y'', Seen_normal ''B'', Seen_normal ''N'']"
  by (simp add: rspq_prio_run_def rspq_prio_from_def rspq_prio_init_def rspq_prio_test_pre_def
        rspq_prio_test_seg_def rspq_prio_test_post_def rspq_highpri_begin_def rspq_highpri_end_def
        rspq_prio_write_def rspq_consumer_fetch_def rspq_consumer_finish_def)

lemma rspq_prio_test_pre_streams:
  "normal_stream (rspq_prio_run rspq_prio_test_pre) = [''A'', ''B'']"
  "highpri_stream (rspq_prio_run rspq_prio_test_pre) = []"
  "prio_current (rspq_prio_run rspq_prio_test_pre) = Some ''A''"
  by (simp_all add: rspq_prio_run_def rspq_prio_from_def rspq_prio_init_def rspq_prio_test_pre_def
        rspq_prio_write_def rspq_consumer_fetch_def normal_stream_def highpri_stream_def)

text \<open>
  Claim C5.  In every interleaving of the producer's calls and the consumer's steps,
  let a high-priority segment be opened with \<^verbatim>\<open>rspq_highpri_begin\<close> after the events
  \<open>pre\<close>, let \<open>seg\<close> be the events until \<^verbatim>\<open>rspq_highpri_end\<close> closes it (writes of
  commands, such as \<open>X\<close> and \<open>Y\<close>, and steps of the consumer, which may still be
  executing a long-running command of the normal queue), and let \<open>post\<close> be the events
  after.  Then the commands written in the segment have gone to the high-priority
  queue, in the order of their writes and behind the commands of earlier segments,
  and none to the normal queue; both streams keep what they hold.  Whenever the
  consumer takes a command of the normal queue that was enqueued after
  \<^verbatim>\<open>rspq_highpri_begin\<close>, that is one beyond the commands the normal stream held
  then, it has before that taken the commands of the high-priority stream up to and
  including those of the segment.  And at every step at which the consumer takes a
  command of the normal queue, the high-priority queue is empty, no segment is open
  and no command is being executed: the high-priority stream is drained before the
  normal stream resumes.
\<close>

theorem rspq_highpri_preempts:
  assumes seg: "Highpri_end \<notin> set seg"
  shows "let s0 = rspq_prio_run pre;
             s1 = rspq_prio_run (pre @ Highpri_begin # seg @ [Highpri_end]);
             evs = pre @ Highpri_begin # seg @ Highpri_end # post;
             s = rspq_prio_run evs;
             hs = highpri_stream s0 @ writes_of seg
         in highpri_stream s1 = hs
          \<and> normal_stream s1 = normal_stream s0
          \<and> take (length hs) (highpri_stream s) = hs
          \<and> take (length (normal_stream s0)) (normal_stream s) = normal_stream s0
          \<and> (\<forall>p < length (prio_seen s).
                is_seen_normal (prio_seen s ! p)
                \<and> length (normal_stream s0) \<le> length (seen_normal (take p (prio_seen s)))
                \<longrightarrow> take (length hs) (seen_highpri (take p (prio_seen s))) = hs)
          \<and> (\<forall>k < length evs. \<forall>c.
                prio_seen (rspq_prio_run (take (Suc k) evs))
                  = prio_seen (rspq_prio_run (take k evs)) @ [Seen_normal c]
                \<longrightarrow> prio_highpri (rspq_prio_run (take k evs)) = []
                  \<and> \<not> prio_open (rspq_prio_run (take k evs))
                  \<and> prio_current (rspq_prio_run (take k evs)) = None)"
proof -
  let ?pre = "rspq_prio_run pre"
  let ?beg = "rspq_prio_step Highpri_begin ?pre"
  let ?sgm = "rspq_prio_from ?beg seg"
  let ?cls = "rspq_prio_run (pre @ Highpri_begin # seg @ [Highpri_end])"
  let ?evs = "pre @ Highpri_begin # seg @ Highpri_end # post"
  let ?fin = "rspq_prio_run ?evs"
  let ?hs = "highpri_stream ?pre @ writes_of seg"
  let ?L = "length (normal_stream ?pre)"
  have s1: "?cls = rspq_prio_step Highpri_end ?sgm"
    by (simp add: rspq_prio_run_def rspq_prio_from_def)
  have s: "?fin = rspq_prio_from ?cls post"
    by (simp add: rspq_prio_run_def rspq_prio_from_def)
  have ob: "prio_open ?beg" by (simp add: rspq_highpri_begin_def)
  have hb: "highpri_stream ?beg = highpri_stream ?pre" "normal_stream ?beg = normal_stream ?pre"
    by (simp_all add: rspq_highpri_begin_def highpri_stream_def normal_stream_def)
  note g = rspq_segment_streams [OF ob seg]
  have 1: "highpri_stream ?cls = ?hs"
    using g hb highpri_stream_step [of Highpri_end ?sgm] by (simp add: s1)
  have 2: "normal_stream ?cls = normal_stream ?pre"
    using g hb normal_stream_step [of Highpri_end ?sgm] by (simp add: s1)
  obtain ws where ws: "highpri_stream ?fin = ?hs @ ws"
    using highpri_stream_from [of ?cls post] 1 s by metis
  have 3: "take (length ?hs) (highpri_stream ?fin) = ?hs"
    unfolding ws by simp
  obtain ns where ns: "normal_stream ?fin = normal_stream ?pre @ ns"
    using normal_stream_from [of ?cls post] 2 s by metis
  have 4: "take ?L (normal_stream ?fin) = normal_stream ?pre"
    unfolding ns by simp
  have i1: "highpri_first ?L (length ?hs) ?cls"
    by (rule highpri_first_init) (simp add: 2)
  have i2: "length ?hs \<le> length (highpri_stream ?cls)"
    by (simp add: 1)
  have inv: "highpri_first ?L (length ?hs) ?fin"
    unfolding s using i1 i2 by (rule highpri_first_from)
  have 5: "take (length ?hs) (seen_highpri (take p (prio_seen ?fin))) = ?hs"
    if p: "p < length (prio_seen ?fin)"
      and a: "is_seen_normal (prio_seen ?fin ! p)
            \<and> ?L \<le> length (seen_normal (take p (prio_seen ?fin)))" for p
  proof -
    have le: "length ?hs \<le> length (seen_highpri (take p (prio_seen ?fin)))"
      using inv p a unfolding highpri_first_def by blast
    obtain us where us: "seen_highpri (prio_seen ?fin) = seen_highpri (take p (prio_seen ?fin)) @ us"
      using seen_highpri_take_prefix by blast
    have "highpri_stream ?fin = seen_highpri (take p (prio_seen ?fin)) @ (us @ prio_highpri ?fin)"
      using us by (simp add: highpri_stream_def)
    then have "take (length ?hs) (highpri_stream ?fin)
                 = take (length ?hs) (seen_highpri (take p (prio_seen ?fin)))"
      using le by simp
    then show ?thesis using 3 by simp
  qed
  have 6: "prio_highpri (rspq_prio_run (take k ?evs)) = []
         \<and> \<not> prio_open (rspq_prio_run (take k ?evs))
         \<and> prio_current (rspq_prio_run (take k ?evs)) = None"
    if k: "k < length ?evs"
      and a: "prio_seen (rspq_prio_run (take (Suc k) ?evs))
                = prio_seen (rspq_prio_run (take k ?evs)) @ [Seen_normal c]" for k c
  proof -
    have "take (Suc k) ?evs = take k ?evs @ [?evs ! k]"
      using k by (rule take_Suc_conv_app_nth)
    then have "rspq_prio_run (take (Suc k) ?evs)
                 = rspq_prio_step (?evs ! k) (rspq_prio_run (take k ?evs))"
      by (simp only: rspq_prio_run_snoc)
    then show ?thesis
      using a seen_step [of "?evs ! k" "rspq_prio_run (take k ?evs)"] by auto
  qed
  show ?thesis
    unfolding Let_def using 1 2 3 4 5 6 by blast
qed

theorem rspq_highpri_preempts_witness:
  "Highpri_end \<notin> set rspq_prio_test_seg
   \<and> prio_current (rspq_prio_run rspq_prio_test_pre) = Some ''A''
   \<and> prio_seen (rspq_prio_run (rspq_prio_test_pre @ Highpri_begin # rspq_prio_test_seg
                                 @ Highpri_end # rspq_prio_test_post))
       = [Seen_normal ''A'', Seen_highpri ''X'', Seen_highpri ''Y'', Seen_normal ''B'', Seen_normal ''N'']
   \<and> take 2 (seen_highpri (take 4 (prio_seen (rspq_prio_run
         (rspq_prio_test_pre @ Highpri_begin # rspq_prio_test_seg
            @ Highpri_end # rspq_prio_test_post))))) = [''X'', ''Y'']"
proof -
  have seg: "Highpri_end \<notin> set rspq_prio_test_seg"
    by (simp add: rspq_prio_test_seg_def)
  let ?s = "rspq_prio_run (rspq_prio_test_pre @ Highpri_begin # rspq_prio_test_seg
                             @ Highpri_end # rspq_prio_test_post)"
  have w: "writes_of rspq_prio_test_seg = [''X'', ''Y'']"
    by (simp add: rspq_prio_test_seg_def)
  note t = rspq_highpri_preempts [OF seg, of rspq_prio_test_pre rspq_prio_test_post,
             unfolded Let_def, THEN conjunct2, THEN conjunct2, THEN conjunct2, THEN conjunct2,
             THEN conjunct1, rule_format, of 4]
  have "take 2 (seen_highpri (take 4 (prio_seen ?s))) = [''X'', ''Y'']"
    using t by (simp add: rspq_prio_test_seen rspq_prio_test_pre_streams w)
  then show ?thesis
    using seg rspq_prio_test_seen rspq_prio_test_pre_streams(3) by simp
qed


section \<open>The maximum command size\<close>

text \<open>
  Claim C8.  \<^verbatim>\<open>RSPQ_MAX_COMMAND_SIZE\<close> is 16 (32-bit words).  A command has at least
  one word: \<^verbatim>\<open>rspq_write\<close> with \<open>k\<close> arguments stores \<open>max 1 k\<close> words.  The
  macro has no check of the size: whatever the number of arguments, all words are
  stored and the cursor moves past them; a command of more than 16 words has its
  17th word stored 16 words beyond the cursor, outside the room the sentinel keeps
  free.  Staying within 16 words is left to the caller.
\<close>

theorem rspq_max_command_size:
  "RSPQ_MAX_COMMAND_SIZE = 16
   \<and> 1 \<le> length (rspq_cmd_words cmd_id args)
   \<and> length (rspq_cmd_words cmd_id args) = max 1 (length args)
   \<and> (let st = rspq_write_stored cmd_id args s; ws = rspq_cmd_words cmd_id args in
        rspq_write nb cmd_id args s = rspq_write_epilog nb st
      \<and> rspq_cur_pointer st = rspq_cur_pointer s + length ws
      \<and> map (rdram st) [rspq_cur_pointer s ..< rspq_cur_pointer s + length ws] = ws
      \<and> (RSPQ_MAX_COMMAND_SIZE < length ws \<longrightarrow>
           rdram st (rspq_cur_pointer s + RSPQ_MAX_COMMAND_SIZE) = ws ! RSPQ_MAX_COMMAND_SIZE))"
proof -
  let ?ws = "rspq_cmd_words cmd_id args"
  let ?st = "rspq_write_stored cmd_id args s"
  have len: "length ?ws = max 1 (length args)"
    by (cases args) (simp_all add: rspq_cmd_words_def)
  have pos: "1 \<le> length ?ws"
    by (simp add: len)
  have cur: "rspq_cur_pointer ?st = rspq_cur_pointer s + length ?ws"
    by (simp add: rspq_write_stored_eq)
  have mem: "map (rdram ?st) [rspq_cur_pointer s ..< rspq_cur_pointer s + length ?ws] = ?ws"
    by (simp add: rspq_write_stored_eq map_store_words)
  have over: "RSPQ_MAX_COMMAND_SIZE < length ?ws \<longrightarrow>
      rdram ?st (rspq_cur_pointer s + RSPQ_MAX_COMMAND_SIZE) = ?ws ! RSPQ_MAX_COMMAND_SIZE"
    by (simp add: rspq_write_stored_eq store_words_inside)
  show ?thesis
    unfolding Let_def
    using RSPQ_MAX_COMMAND_SIZE_def len pos cur mem over rspq_write_eq_epilog [of nb cmd_id args s]
    by blast
qed

theorem rspq_max_command_size_witness:
  "RSPQ_MAX_COMMAND_SIZE = 16
   \<and> length (rspq_cmd_words 0x12 [1, 2, 3, 4, 5, 6, 7, 8, 9, 10, 11, 12, 13, 14, 15, 16, 17]) = 17
   \<and> rspq_cur_pointer (rspq_write_stored 0x12 [1, 2, 3, 4, 5, 6, 7, 8, 9, 10, 11, 12, 13, 14, 15, 16, 17]
        (rspq_test_state 0 0)) = 17
   \<and> rdram (rspq_write_stored 0x12 [1, 2, 3, 4, 5, 6, 7, 8, 9, 10, 11, 12, 13, 14, 15, 16, 17]
        (rspq_test_state 0 0)) 16 = 17"
  using rspq_max_command_size [of "0x12" "[1, 2, 3, 4, 5, 6, 7, 8, 9, 10, 11, 12, 13, 14, 15, 16, 17]"
      "rspq_test_state 0 0" id]
  by (simp add: Let_def rspq_test_state_def rspq_cmd_words_def)


section \<open>The order of the stores of a write\<close>

lemma rspq_write1_body_length: "length (rspq_write1_body cmd_id arg0 rest) = length rest + 2"
  by (simp add: rspq_write1_body_def)

lemma rspq_write1_prefix_payload:
  assumes "k \<le> length rest"
  shows "run_stmts (take k (rspq_write1_body cmd_id arg0 rest)) (rspq_write_prolog s) =
     (rspq_cur_pointer s + 1 + k,
      s\<lparr>rdram := store_words (rspq_cur_pointer s + 1) (take k rest) (rdram s)\<rparr>)"
proof -
  have e: "take k (rspq_write1_body cmd_id arg0 rest) = map rspq_write_arg (take k rest)"
    using assms by (simp add: rspq_write1_body_def take_map)
  have l: "length (take k rest) = k"
    using assms by simp
  show ?thesis
    unfolding e rspq_write_prolog_def run_write_args l by simp
qed

lemma rspq_write1_prefix_header:
  assumes "length rest < k"
  shows "rdram (snd (run_stmts (take k (rspq_write1_body cmd_id arg0 rest)) (rspq_write_prolog s))) =
     store_words (rspq_cur_pointer s) ((push_bit 24 cmd_id OR arg0) # rest) (rdram s)"
proof -
  consider "k = Suc (length rest)" | "Suc (length rest) < k"
    using assms by linarith
  then show ?thesis
  proof cases
    case 1
    then have e: "take k (rspq_write1_body cmd_id arg0 rest) =
        map rspq_write_arg rest @ [rspq_store_first (push_bit 24 cmd_id OR arg0)]"
      by (simp add: rspq_write1_body_def)
    show ?thesis
      unfolding e run_stmts_append rspq_write_prolog_def run_write_args
      by (simp add: run_stmts_Cons run_stmts_Nil rspq_store_first_def flip: store_words_first)
  next
    case 2
    then have e: "take k (rspq_write1_body cmd_id arg0 rest) = rspq_write1_body cmd_id arg0 rest"
      by (simp add: rspq_write1_body_def)
    show ?thesis
      unfolding e using rspq_write1_stored_eq [of cmd_id arg0 rest s]
      by (simp add: rspq_write1_stored_def)
  qed
qed

text \<open>
  Claim C9.  In \<^verbatim>\<open>rspq_write\<close> with arguments after the first, the words after the
  first word are stored before the first word.  At every point of the body: after
  \<open>k\<close> statements, \<open>k\<close> at most the number \<open>n\<close> of these words, exactly the first
  \<open>k\<close> of them stand at the offsets \<open>1..k\<close> from the cursor and nothing else has
  changed, the word at the cursor in particular; after more statements the first
  word stands at the cursor and all \<open>n\<close> words stand at the offsets \<open>1..n\<close>.  So the
  first word of the command is never in the buffer without all the words after it.
\<close>

theorem rspq_write1_payload_before_header:
  "\<forall>k \<le> length (rspq_write1_body cmd_id arg0 rest).
     (let sk = snd (run_stmts (take k (rspq_write1_body cmd_id arg0 rest)) (rspq_write_prolog s));
          cur = rspq_cur_pointer s
      in (k \<le> length rest \<longrightarrow>
            rdram sk cur = rdram s cur
          \<and> map (rdram sk) [cur + 1 ..< cur + 1 + k] = take k rest
          \<and> (\<forall>a. a \<le> cur \<or> cur + 1 + k \<le> a \<longrightarrow> rdram sk a = rdram s a))
       \<and> (length rest < k \<longrightarrow>
            rdram sk cur = push_bit 24 cmd_id OR arg0
          \<and> map (rdram sk) [cur + 1 ..< cur + 1 + length rest] = rest
          \<and> (\<forall>a. a < cur \<or> cur + 1 + length rest \<le> a \<longrightarrow> rdram sk a = rdram s a)))"
proof (intro allI impI)
  fix k
  let ?sk = "snd (run_stmts (take k (rspq_write1_body cmd_id arg0 rest)) (rspq_write_prolog s))"
  let ?cur = "rspq_cur_pointer s"
  have early: "rdram ?sk ?cur = rdram s ?cur
          \<and> map (rdram ?sk) [?cur + 1 ..< ?cur + 1 + k] = take k rest
          \<and> (\<forall>a. a \<le> ?cur \<or> ?cur + 1 + k \<le> a \<longrightarrow> rdram ?sk a = rdram s a)"
    if k: "k \<le> length rest"
  proof -
    have m: "rdram ?sk = store_words (?cur + 1) (take k rest) (rdram s)"
      by (simp add: rspq_write1_prefix_payload [OF k])
    have l: "length (take k rest) = k"
      using k by simp
    have 1: "map (rdram ?sk) [?cur + 1 ..< ?cur + 1 + k] = take k rest"
      unfolding m using map_store_words [of "?cur + 1" "take k rest" "rdram s"]
      by (simp only: l)
    have 2: "rdram ?sk ?cur = rdram s ?cur"
      unfolding m by (simp add: store_words_def)
    have 3: "\<forall>a. a \<le> ?cur \<or> ?cur + 1 + k \<le> a \<longrightarrow> rdram ?sk a = rdram s a"
      unfolding m using l by (auto simp: store_words_def)
    show ?thesis
      using 1 2 3 by blast
  qed
  have late: "rdram ?sk ?cur = push_bit 24 cmd_id OR arg0
          \<and> map (rdram ?sk) [?cur + 1 ..< ?cur + 1 + length rest] = rest
          \<and> (\<forall>a. a < ?cur \<or> ?cur + 1 + length rest \<le> a \<longrightarrow> rdram ?sk a = rdram s a)"
    if k: "length rest < k"
  proof -
    have m: "rdram ?sk = store_words ?cur ((push_bit 24 cmd_id OR arg0) # rest) (rdram s)"
      by (rule rspq_write1_prefix_header [OF k])
    have "map (\<lambda>a. store_words ?cur ((push_bit 24 cmd_id OR arg0) # rest) (rdram s) a)
            [?cur + 1 ..< ?cur + 1 + length rest]
        = map (\<lambda>a. store_words (?cur + 1) rest (rdram s) a) [?cur + 1 ..< ?cur + 1 + length rest]"
      by (rule map_cong) (auto simp: store_words_def nth_Cons')
    then have 1: "map (rdram ?sk) [?cur + 1 ..< ?cur + 1 + length rest] = rest"
      unfolding m by (simp only: map_store_words)
    have 2: "rdram ?sk ?cur = push_bit 24 cmd_id OR arg0"
      unfolding m by (simp add: store_words_def)
    have 3: "\<forall>a. a < ?cur \<or> ?cur + 1 + length rest \<le> a \<longrightarrow> rdram ?sk a = rdram s a"
      unfolding m by (auto simp: store_words_def)
    show ?thesis
      using 1 2 3 by blast
  qed
  show "let sk = ?sk; cur = ?cur
      in (k \<le> length rest \<longrightarrow>
            rdram sk cur = rdram s cur
          \<and> map (rdram sk) [cur + 1 ..< cur + 1 + k] = take k rest
          \<and> (\<forall>a. a \<le> cur \<or> cur + 1 + k \<le> a \<longrightarrow> rdram sk a = rdram s a))
       \<and> (length rest < k \<longrightarrow>
            rdram sk cur = push_bit 24 cmd_id OR arg0
          \<and> map (rdram sk) [cur + 1 ..< cur + 1 + length rest] = rest
          \<and> (\<forall>a. a < cur \<or> cur + 1 + length rest \<le> a \<longrightarrow> rdram sk a = rdram s a))"
    unfolding Let_def using early late by blast
qed

theorem rspq_write1_payload_before_header_witness:
  "rdram (snd (run_stmts (take 2 (rspq_write1_body 0x37 5 [7, 8, 9])) (rspq_write_prolog (rspq_test_state 4 100)))) 4 = 0
   \<and> map (rdram (snd (run_stmts (take 2 (rspq_write1_body 0x37 5 [7, 8, 9]))
        (rspq_write_prolog (rspq_test_state 4 100))))) [5 ..< 7] = [7, 8]
   \<and> rdram (snd (run_stmts (take 4 (rspq_write1_body 0x37 5 [7, 8, 9])) (rspq_write_prolog (rspq_test_state 4 100)))) 4 = 0x37000005
   \<and> map (rdram (snd (run_stmts (take 4 (rspq_write1_body 0x37 5 [7, 8, 9]))
        (rspq_write_prolog (rspq_test_state 4 100))))) [5 ..< 8] = [7, 8, 9]"
proof -
  note t = rspq_write1_payload_before_header [of "0x37" 5 "[7, 8, 9]" "rspq_test_state 4 100",
      unfolded Let_def, rule_format]
  have c: "rspq_cur_pointer (rspq_test_state 4 100) = 4" "rdram (rspq_test_state 4 100) 4 = 0"
    by (simp_all add: rspq_test_state_def)
  have k2: "(2::nat) \<le> length (rspq_write1_body 0x37 5 [7, 8, 9])" "(2::nat) \<le> length [7, 8, 9 :: u32]"
    by (simp_all add: rspq_write1_body_def)
  have k4: "(4::nat) \<le> length (rspq_write1_body 0x37 5 [7, 8, 9])" "length [7, 8, 9 :: u32] < 4"
    by (simp_all add: rspq_write1_body_def)
  note early = t [OF k2(1), THEN conjunct1, rule_format, OF k2(2), unfolded c]
  note late = t [OF k4(1), THEN conjunct2, rule_format, OF k4(2), unfolded c]
  show ?thesis
    using early [THEN conjunct1] early [THEN conjunct2, THEN conjunct1]
      late [THEN conjunct1] late [THEN conjunct2, THEN conjunct1]
    by simp
qed


section \<open>The bounds of the buffer\<close>

text \<open>
  Claim C10.  The cursor is compared with the sentinel after the whole command is
  stored: \<^verbatim>\<open>rspq_write\<close> runs \<^verbatim>\<open>rspq_next_buffer\<close> once, on the state with all
  words in place, if the cursor behind the command exceeds the sentinel, and not at
  all otherwise.  A command that starts at or below the sentinel may end up to
  \<^verbatim>\<open>RSPQ_MAX_COMMAND_SIZE\<close> words beyond it.  If the end of the buffer is this
  many words or more beyond the sentinel, the cursor stays within the buffer and no
  word outside the buffer changes.  (That a command starts at or below the sentinel
  is what the check maintains: after the write the cursor is at or below the
  sentinel again, if \<^verbatim>\<open>rspq_next_buffer\<close> returns with it so.)
\<close>

theorem rspq_write_bounds_check:
  fixes nb :: "'a rspq_state_scheme \<Rightarrow> 'a rspq_state_scheme"
  assumes "length (rspq_cmd_words cmd_id args) \<le> RSPQ_MAX_COMMAND_SIZE"
    and "rspq_cur_pointer s \<le> rspq_cur_sentinel s"
    and "rspq_cur_sentinel s + RSPQ_MAX_COMMAND_SIZE \<le> buf_end"
  shows "(let st = rspq_write_stored cmd_id args s; ws = rspq_cmd_words cmd_id args in
            rspq_write nb cmd_id args s = (if rspq_cur_pointer st > rspq_cur_sentinel s then nb st else st)
          \<and> map (rdram st) [rspq_cur_pointer s ..< rspq_cur_pointer s + length ws] = ws
          \<and> rspq_cur_pointer st = rspq_cur_pointer s + length ws
          \<and> rspq_cur_sentinel st = rspq_cur_sentinel s
          \<and> rspq_cur_pointer st \<le> rspq_cur_sentinel s + RSPQ_MAX_COMMAND_SIZE
          \<and> rspq_cur_pointer st \<le> buf_end
          \<and> (\<forall>a. a < rspq_cur_pointer s \<or> buf_end \<le> a \<longrightarrow> rdram st a = rdram s a)
          \<and> ((\<forall>t. rspq_cur_pointer (nb t) \<le> rspq_cur_sentinel (nb t)) \<longrightarrow>
                rspq_cur_pointer (rspq_write nb cmd_id args s)
                  \<le> rspq_cur_sentinel (rspq_write nb cmd_id args s)))"
proof -
  let ?ws = "rspq_cmd_words cmd_id args"
  let ?st = "rspq_write_stored cmd_id args s"
  have cur: "rspq_cur_pointer ?st = rspq_cur_pointer s + length ?ws"
    by (simp add: rspq_write_stored_eq)
  have sen: "rspq_cur_sentinel ?st = rspq_cur_sentinel s"
    by (simp add: rspq_write_stored_eq)
  have run: "rspq_write nb cmd_id args s = (if rspq_cur_pointer ?st > rspq_cur_sentinel s then nb ?st else ?st)"
    by (simp add: rspq_write_eq_epilog rspq_write_epilog_def sen)
  have mem: "map (rdram ?st) [rspq_cur_pointer s ..< rspq_cur_pointer s + length ?ws] = ?ws"
    by (simp add: rspq_write_stored_eq map_store_words)
  have le1: "rspq_cur_pointer ?st \<le> rspq_cur_sentinel s + RSPQ_MAX_COMMAND_SIZE"
    using assms(1,2) by (simp add: cur)
  have le2: "rspq_cur_pointer ?st \<le> buf_end"
    using le1 assms(3) by simp
  have out: "\<forall>a. a < rspq_cur_pointer s \<or> buf_end \<le> a \<longrightarrow> rdram ?st a = rdram s a"
    using le2 by (auto simp: rspq_write_stored_eq store_words_def)
  have inv: "rspq_cur_pointer (rspq_write nb cmd_id args s)
               \<le> rspq_cur_sentinel (rspq_write nb cmd_id args s)"
    if "\<forall>t. rspq_cur_pointer (nb t) \<le> rspq_cur_sentinel (nb t)"
  proof (cases "rspq_cur_pointer ?st > rspq_cur_sentinel s")
    case True
    then show ?thesis using that by (simp add: run)
  next
    case False
    then show ?thesis by (simp add: run sen)
  qed
  show ?thesis
    unfolding Let_def using run mem cur sen le1 le2 out inv by blast
qed

theorem rspq_write_bounds_check_witness:
  "rspq_write nb_test 0x12 [1, 2, 3, 4, 5, 6, 7, 8, 9, 10, 11, 12, 13, 14, 15, 16] (rspq_test_state 100 100)
     = nb_test (rspq_write_stored 0x12 [1, 2, 3, 4, 5, 6, 7, 8, 9, 10, 11, 12, 13, 14, 15, 16] (rspq_test_state 100 100))
   \<and> rspq_cur_pointer (rspq_write_stored 0x12 [1, 2, 3, 4, 5, 6, 7, 8, 9, 10, 11, 12, 13, 14, 15, 16]
         (rspq_test_state 100 100)) = 116
   \<and> rdram (rspq_write_stored 0x12 [1, 2, 3, 4, 5, 6, 7, 8, 9, 10, 11, 12, 13, 14, 15, 16]
         (rspq_test_state 100 100)) 116 = 0
   \<and> rspq_write nb_test 0x12 [1, 2] (rspq_test_state 98 100)
     = rspq_write_stored 0x12 [1, 2] (rspq_test_state 98 100)"
proof -
  let ?args = "[1, 2, 3, 4, 5, 6, 7, 8, 9, 10, 11, 12, 13, 14, 15, 16] :: u32 list"
  let ?s = "rspq_test_state 100 100"
  have l: "length (rspq_cmd_words 0x12 ?args) = 16" "length (rspq_cmd_words 0x12 [1, 2]) = 2"
    by (simp_all add: rspq_cmd_words_def)
  have c: "rspq_cur_pointer ?s = 100" "rspq_cur_sentinel ?s = 100" "rdram ?s 116 = 0"
    "rspq_cur_pointer (rspq_test_state 98 100) = 98" "rspq_cur_sentinel (rspq_test_state 98 100) = 100"
    by (simp_all add: rspq_test_state_def)
  have h1: "length (rspq_cmd_words 0x12 ?args) \<le> RSPQ_MAX_COMMAND_SIZE"
    by (simp add: l RSPQ_MAX_COMMAND_SIZE_def)
  have h2: "rspq_cur_pointer ?s \<le> rspq_cur_sentinel ?s"
    by (simp add: c)
  have h3: "rspq_cur_sentinel ?s + RSPQ_MAX_COMMAND_SIZE \<le> 116"
    by (simp add: c RSPQ_MAX_COMMAND_SIZE_def)
  note full = rspq_write_bounds_check [OF h1 h2 h3, of nb_test, unfolded Let_def l c]
  have g1: "length (rspq_cmd_words 0x12 [1, 2]) \<le> RSPQ_MAX_COMMAND_SIZE"
    by (simp add: l RSPQ_MAX_COMMAND_SIZE_def)
  have g2: "rspq_cur_pointer (rspq_test_state 98 100) \<le> rspq_cur_sentinel (rspq_test_state 98 100)"
    by (simp add: c)
  have g3: "rspq_cur_sentinel (rspq_test_state 98 100) + RSPQ_MAX_COMMAND_SIZE \<le> 116"
    by (simp add: c RSPQ_MAX_COMMAND_SIZE_def)
  note short = rspq_write_bounds_check [OF g1 g2 g3, of nb_test, unfolded Let_def l c]
  note fcur = full [THEN conjunct2, THEN conjunct2, THEN conjunct1]
  note scur = short [THEN conjunct2, THEN conjunct2, THEN conjunct1]
  have 1: "rspq_write nb_test 0x12 ?args ?s = nb_test (rspq_write_stored 0x12 ?args ?s)"
    using full [THEN conjunct1] by (simp only: fcur) simp
  have 2: "rspq_cur_pointer (rspq_write_stored 0x12 ?args ?s) = 116"
    using fcur by simp
  have 3: "rdram (rspq_write_stored 0x12 ?args ?s) 116 = 0"
    using full [THEN conjunct2, THEN conjunct2, THEN conjunct2, THEN conjunct2, THEN conjunct2,
        THEN conjunct2, THEN conjunct1, rule_format, of 116]
    by (simp add: c)
  have 4: "rspq_write nb_test 0x12 [1, 2] (rspq_test_state 98 100)
             = rspq_write_stored 0x12 [1, 2] (rspq_test_state 98 100)"
    using short [THEN conjunct1] by (simp only: scur) simp
  show ?thesis
    using 1 2 3 4 by blast
qed

end
